theory Spec2Isabelle
  imports Complex_Main "HOL-Library.Word" "HOL-Library.Signed_Division"
begin

unbundle bit_operations_syntax

section \<open>LatTest: a kernel module measuring the jitter of a periodic hrtimer\<close>

text \<open>
  The module (lattest.c, the revision with the SysFS interface) keeps its state in
  file-level variables, updates them from the hrtimer callback
  \<^verbatim>\<open>lattest_timer_function\<close> and from the SysFS store callbacks, and reports derived
  statistics in \<^verbatim>\<open>show_statistics_cb\<close>.

  Integer types are those of the Raspberry Pi target (32-bit ARM): \<^verbatim>\<open>int\<close> and
  \<^verbatim>\<open>unsigned long\<close> are 32 bits, \<^verbatim>\<open>long long\<close> and \<^verbatim>\<open>uint64_t\<close> are 64 bits. A
  \<^verbatim>\<open>long long\<close> is a \<open>64 word\<close> read with \<open>sint\<close>; the kernel is built with wrapping
  signed arithmetic, so \<open>+\<close>, \<open>-\<close> and \<open>*\<close> on words are the C operators.
\<close>

subsection \<open>Helper functions\<close>

datatype fault = DivideByZero | IndexOutOfBounds

text \<open>
  The kernel's \<^verbatim>\<open>abs()\<close> macro (linux/kernel.h) is not part of the module. It is taken
  as the type-generic macro of kernels since 4.6, which on a \<^verbatim>\<open>long long\<close> is
  \<^verbatim>\<open>x < 0 ? -x : x\<close> in 64 bits. The most negative value is its own negation.
\<close>

definition abs_ll :: "64 word \<Rightarrow> 64 word" where
  "abs_ll x = (if x <s 0 then - x else x)"

text \<open>
  The kernel's \<^verbatim>\<open>do_div(n, base)\<close> macro (asm/div64.h) is not part of the module. As
  the comment above \<^verbatim>\<open>div_ll\<close> says (``do\_div actually is uint64 / uint32''), it
  reads the dividend as an unsigned 64-bit value and keeps only the low 32 bits of
  the divisor. A divisor whose low 32 bits are zero traps.
\<close>

definition do_div :: "64 word \<Rightarrow> 64 word \<Rightarrow> fault + 64 word" where
  "do_div n base =
     (let base32 = (ucast base :: 32 word)
      in if base32 = 0 then Inl DivideByZero
         else Inr (n div (ucast base32 :: 64 word)))"

definition div_ll :: "64 word \<Rightarrow> 64 word \<Rightarrow> fault + 64 word" where
  "div_ll n base =
     (let a = abs_ll n;
          b = abs_ll base
      in case do_div a b of
           Inl e \<Rightarrow> Inl e
         | Inr a' \<Rightarrow> Inr (if (n <s 0) \<noteq> (base <s 0) then - a' else a'))"

text \<open>First loop of \<^verbatim>\<open>isqrtu64\<close>: \<^verbatim>\<open>while (one > op) one >>= 2;\<close>\<close>

function isqrt_start :: "64 word \<Rightarrow> 64 word \<Rightarrow> 64 word" where
  "isqrt_start one op = (if one > op then isqrt_start (drop_bit 2 one) op else one)"
  by pat_completeness auto
termination
proof (relation "measure (\<lambda>(one, op). unat one)")
  show "wf (measure (\<lambda>(one :: 64 word, op :: 64 word). unat one))"
    by simp
next
  fix one op :: "64 word"
  assume "op < one"
  then have "0 < unat one"
    by (simp add: word_less_nat_alt)
  then have "unat one div 4 < unat one"
    by simp
  then show "((drop_bit 2 one, op), (one, op)) \<in> measure (\<lambda>(one, op). unat one)"
    by (simp add: drop_bit_eq_div unat_div)
qed

text \<open>
  Second loop of \<^verbatim>\<open>isqrtu64\<close>:
  \<^verbatim>\<open>while (one != 0) { if (op >= res + one) { op = op - (res + one); res = res + 2 * one; }
     res >>= 1; one >>= 2; }\<close>
  The result is the pair of \<^verbatim>\<open>op\<close> and \<^verbatim>\<open>res\<close> at the loop's exit.
\<close>

function isqrt_loop :: "64 word \<Rightarrow> 64 word \<Rightarrow> 64 word \<Rightarrow> 64 word \<times> 64 word" where
  "isqrt_loop op res one =
     (if one \<noteq> 0
      then (if op \<ge> res + one
            then isqrt_loop (op - (res + one)) (drop_bit 1 (res + 2 * one)) (drop_bit 2 one)
            else isqrt_loop op (drop_bit 1 res) (drop_bit 2 one))
      else (op, res))"
  by pat_completeness auto
termination
proof (relation "measure (\<lambda>(op, res, one). unat one)")
  show "wf (measure (\<lambda>(op :: 64 word, res :: 64 word, one :: 64 word). unat one))"
    by simp
next
  fix op res one :: "64 word"
  assume "one \<noteq> 0"
  then have "0 < unat one"
    by (simp add: unat_gt_0)
  then have "unat one div 4 < unat one"
    by simp
  then show "((op - (res + one), drop_bit 1 (res + 2 * one), drop_bit 2 one), (op, res, one))
      \<in> measure (\<lambda>(op, res, one). unat one)"
    by (simp add: drop_bit_eq_div unat_div)
next
  fix op res one :: "64 word"
  assume "one \<noteq> 0"
  then have "0 < unat one"
    by (simp add: unat_gt_0)
  then have "unat one div 4 < unat one"
    by simp
  then show "((op, drop_bit 1 res, drop_bit 2 one), (op, res, one))
      \<in> measure (\<lambda>(op, res, one). unat one)"
    by (simp add: drop_bit_eq_div unat_div)
qed

declare isqrt_start.simps [simp del] isqrt_loop.simps [simp del]

definition isqrtu64 :: "64 word \<Rightarrow> 64 word" where
  "isqrtu64 a_nInput =
     (let one = isqrt_start (push_bit 62 1) a_nInput;
          (op, res) = isqrt_loop a_nInput 0 one
      in if op > res then res + 1 else res)"

subsection \<open>Module state\<close>

text \<open>
  The file-level variables. \<^verbatim>\<open>my_hrtimer\<close> is represented by the one bit the module
  depends on: whether the timer is enqueued, that is, whether its callback will be
  invoked again. The GPIO toggle has no influence on any other variable and is left out.
\<close>

definition HIST_BIN_MAX :: nat where
  "HIST_BIN_MAX = 256"

record lattest_state =
  period_ms :: "32 word"
  my_hrtimer :: bool
  runcount :: "32 word"
  last_now_ns :: "64 word"
  hist_bin_num :: "64 word"
  hist_bin_width :: "64 word"
  stat_min :: "64 word"
  stat_max :: "64 word"
  stat_num :: "64 word"
  stat_sum :: "64 word"
  stat_sumsq :: "64 word"
  histogram :: "32 word list"

definition LLONG_MAX :: "64 word" where
  "LLONG_MAX = 9223372036854775807"

definition LLONG_MIN :: "64 word" where
  "LLONG_MIN = - 9223372036854775807 - 1"

text \<open>
  \<^verbatim>\<open>#define HIST_BIN_LOW(i) ((hist_bin_width>>1)*(hist_bin_num&1)+((i)-((hist_bin_num+1)>>1))*hist_bin_width)\<close>
  with \<^verbatim>\<open>>>\<close> on a \<^verbatim>\<open>long long\<close> the arithmetic shift.
\<close>

definition HIST_BIN_LOW :: "lattest_state \<Rightarrow> 64 word \<Rightarrow> 64 word" where
  "HIST_BIN_LOW s i =
     signed_drop_bit 1 (hist_bin_width s) * (hist_bin_num s AND 1)
     + (i - signed_drop_bit 1 (hist_bin_num s + 1)) * hist_bin_width s"

text \<open>The state after \<^verbatim>\<open>lattest_init\<close>: statics are zero, then the defaults are set.\<close>

definition lattest_init :: lattest_state where
  "lattest_init =
     \<lparr> period_ms = 10, my_hrtimer = False, runcount = 0, last_now_ns = 0,
       hist_bin_num = 20, hist_bin_width = 1000,
       stat_min = 0, stat_max = 0, stat_num = 0, stat_sum = 0, stat_sumsq = 0,
       histogram = replicate HIST_BIN_MAX 0 \<rparr>"

subsection \<open>Timer function\<close>

datatype hrtimer_restart = HRTIMER_NORESTART | HRTIMER_RESTART

text \<open>
  \<^verbatim>\<open>hist_bin = div_ll(diff_ns - HIST_BIN_LOW(0), hist_bin_width);
  if (hist_bin < 0) hist_bin = 0;
  if (hist_bin >= hist_bin_num) hist_bin = hist_bin_num-1;\<close>
\<close>

definition hist_bin :: "lattest_state \<Rightarrow> 64 word \<Rightarrow> fault + 64 word" where
  "hist_bin s diff_ns =
     (case div_ll (diff_ns - HIST_BIN_LOW s 0) (hist_bin_width s) of
        Inl e \<Rightarrow> Inl e
      | Inr b \<Rightarrow>
          (let b1 = (if b <s 0 then 0 else b);
               b2 = (if hist_bin_num s \<le>s b1 then hist_bin_num s - 1 else b1)
           in Inr b2))"

text \<open>
  \<^verbatim>\<open>histogram[hist_bin]++\<close> on the array of \<^verbatim>\<open>HIST_BIN_MAX\<close> counters of type
  \<^verbatim>\<open>unsigned int\<close>. An index outside the array is a fault.
\<close>

definition histogram_incr :: "32 word list \<Rightarrow> 64 word \<Rightarrow> fault + 32 word list" where
  "histogram_incr h b =
     (if 0 \<le> sint b \<and> sint b < int (length h)
      then Inr (h[nat (sint b) := h ! nat (sint b) + 1])
      else Inl IndexOutOfBounds)"

text \<open>
  The statistics block of the timer function (the body of
  \<^verbatim>\<open>if (last_now_ns != 0)\<close> after \<^verbatim>\<open>diff_ns\<close> has been reduced by the period).
\<close>

definition statistics :: "lattest_state \<Rightarrow> 64 word \<Rightarrow> fault + lattest_state" where
  "statistics s diff_ns =
     (let s1 = s\<lparr>stat_min := (if diff_ns <s stat_min s then diff_ns else stat_min s)\<rparr>;
          s2 = s1\<lparr>stat_max := (if stat_max s1 <s diff_ns then diff_ns else stat_max s1)\<rparr>;
          s3 = s2\<lparr>stat_num := stat_num s2 + 1\<rparr>;
          s4 = s3\<lparr>stat_sum := stat_sum s3 + diff_ns\<rparr>;
          s5 = s4\<lparr>stat_sumsq := stat_sumsq s4 + diff_ns * diff_ns\<rparr>
      in case hist_bin s5 diff_ns of
           Inl e \<Rightarrow> Inl e
         | Inr b \<Rightarrow>
             (case histogram_incr (histogram s5) b of
                Inl e \<Rightarrow> Inl e
              | Inr h \<Rightarrow> Inr (s5\<lparr>histogram := h\<rparr>)))"

text \<open>
  \<^verbatim>\<open>lattest_timer_function\<close>, called with the expiry time \<^verbatim>\<open>now_ns\<close> that
  \<^verbatim>\<open>hrtimer_cb_get_time\<close> reports. \<^verbatim>\<open>period_ms*1000000\<close> is computed in
  \<^verbatim>\<open>unsigned long\<close> and then widened.
\<close>

definition lattest_timer_function ::
  "lattest_state \<Rightarrow> 64 word \<Rightarrow> fault + (hrtimer_restart \<times> lattest_state)" where
  "lattest_timer_function s now_ns =
     (case (if last_now_ns s \<noteq> 0
            then statistics s (now_ns - last_now_ns s - ucast (period_ms s * 1000000))
            else Inr s) of
        Inl e \<Rightarrow> Inl e
      | Inr s1 \<Rightarrow>
          (let s2 = s1\<lparr>last_now_ns := now_ns\<rparr>
           in if 0 <s runcount s2 then Inr (HRTIMER_RESTART, s2\<lparr>runcount := runcount s2 - 1\<rparr>)
              else if runcount s2 = 0 then Inr (HRTIMER_NORESTART, s2)
              else Inr (HRTIMER_RESTART, s2)))"

text \<open>
  The hrtimer core, as far as the module relies on it: while the timer is enqueued it
  expires and the callback runs; the callback's return value decides whether the timer
  is enqueued again. \<open>run_timer s ts\<close> delivers expiries at the times \<open>ts\<close> and returns
  how many times the callback ran, and the final state.
\<close>

fun run_timer :: "lattest_state \<Rightarrow> 64 word list \<Rightarrow> fault + (nat \<times> lattest_state)" where
  "run_timer s [] = Inr (0, s)"
| "run_timer s (now_ns # ts) =
     (if \<not> my_hrtimer s then Inr (0, s)
      else case lattest_timer_function s now_ns of
             Inl e \<Rightarrow> Inl e
           | Inr (r, s') \<Rightarrow>
               (case run_timer (s'\<lparr>my_hrtimer := (r = HRTIMER_RESTART)\<rparr>) ts of
                  Inl e \<Rightarrow> Inl e
                | Inr (k, s'') \<Rightarrow> Inr (Suc k, s'')))"

subsection \<open>SysFS callbacks\<close>

datatype errno = EINVAL

text \<open>
  \<^verbatim>\<open>strncmp(s1, s2, n) == 0\<close> on NUL-terminated strings, each given as the characters
  before its terminator.
\<close>

fun strncmp_eq :: "string \<Rightarrow> string \<Rightarrow> nat \<Rightarrow> bool" where
  "strncmp_eq s1 s2 0 = True"
| "strncmp_eq [] [] (Suc n) = True"
| "strncmp_eq [] (y # ys) (Suc n) = False"
| "strncmp_eq (x # xs) [] (Suc n) = False"
| "strncmp_eq (x # xs) (y # ys) (Suc n) = (x = y \<and> strncmp_eq xs ys n)"


text \<open>
  \<^verbatim>\<open>store_control_cb\<close>, with \<^verbatim>\<open>kstrtoint(buf, 10, &new_runcount)\<close> as a parameter.
  \<^verbatim>\<open>memset\<close> clears all \<^verbatim>\<open>HIST_BIN_MAX\<close> counters; \<^verbatim>\<open>hrtimer_start\<close> enqueues the timer.
\<close>

definition start_timer :: "lattest_state \<Rightarrow> lattest_state" where
  "start_timer s =
     s\<lparr> last_now_ns := 0,
        stat_min := LLONG_MAX, stat_max := LLONG_MIN,
        stat_num := 0, stat_sum := 0, stat_sumsq := 0,
        histogram := replicate HIST_BIN_MAX 0,
        my_hrtimer := True \<rparr>"

definition store_control_cb ::
  "(string \<Rightarrow> 32 word option) \<Rightarrow> lattest_state \<Rightarrow> string \<Rightarrow> nat \<Rightarrow> (errno + nat) \<times> lattest_state" where
  "store_control_cb kstrtoint s buf count =
     (if strncmp_eq buf ''stop'' (min 4 count) then (Inr count, s\<lparr>runcount := 0\<rparr>)
      else if strncmp_eq buf ''infinite'' (min 8 count)
      then (if runcount s \<noteq> 0 then (Inl EINVAL, s)
            else (Inr count, start_timer (s\<lparr>runcount := - 1\<rparr>)))
      else (if runcount s \<noteq> 0 then (Inl EINVAL, s)
            else case kstrtoint buf of
                   None \<Rightarrow> (Inl EINVAL, s)
                 | Some new_runcount \<Rightarrow>
                     if new_runcount \<le>s 0 then (Inl EINVAL, s)
                     else (Inr count, start_timer (s\<lparr>runcount := new_runcount\<rparr>))))"

text \<open>
  \<^verbatim>\<open>store_config_cb\<close>: \<^verbatim>\<open>if (runcount != 0) return -EINVAL; // TODO: implement
  return 0;\<close>
\<close>

definition store_config_cb :: "lattest_state \<Rightarrow> string \<Rightarrow> nat \<Rightarrow> (errno + nat) \<times> lattest_state" where
  "store_config_cb s buf count =
     (if runcount s \<noteq> 0 then (Inl EINVAL, s) else (Inr 0, s))"

text \<open>
  The values \<^verbatim>\<open>show_statistics_cb\<close> precalculates and prints: \<^verbatim>\<open>stat_mean\<close>,
  \<^verbatim>\<open>stat_var\<close> and \<^verbatim>\<open>stat_stddev\<close>. The argument of \<^verbatim>\<open>isqrtu64\<close> is the
  \<^verbatim>\<open>long long\<close> variance converted to \<^verbatim>\<open>uint64_t\<close>, the same 64 bits.
\<close>

definition show_statistics_cb :: "lattest_state \<Rightarrow> fault + (64 word \<times> 64 word \<times> 64 word)" where
  "show_statistics_cb s =
     (if 0 <s stat_num s
      then (case div_ll (stat_sum s) (stat_num s) of
              Inl e \<Rightarrow> Inl e
            | Inr stat_mean \<Rightarrow>
                (case div_ll (stat_sum s * stat_sum s) (stat_num s) of
                   Inl e \<Rightarrow> Inl e
                 | Inr q \<Rightarrow>
                     (case div_ll (stat_sumsq s - q) (stat_num s) of
                        Inl e \<Rightarrow> Inl e
                      | Inr stat_var \<Rightarrow> Inr (stat_mean, stat_var, isqrtu64 stat_var))))
      else Inr (0, 0, 0))"

subsection \<open>Notions used in the statements\<close>

text \<open>
  A configuration the timer function can work with: between 1 and \<^verbatim>\<open>HIST_BIN_MAX\<close>
  bins, a bin width whose magnitude \<^verbatim>\<open>do_div\<close> can divide by (its low 32 bits are not
  all zero), and the histogram array at its declared size.
\<close>

definition config_ok :: "lattest_state \<Rightarrow> bool" where
  "config_ok s \<longleftrightarrow>
     1 \<le>s hist_bin_num s \<and> hist_bin_num s \<le>s 256
     \<and> (ucast (abs_ll (hist_bin_width s)) :: 32 word) \<noteq> 0
     \<and> length (histogram s) = HIST_BIN_MAX"

text \<open>
  Recording a sequence of jitter samples: the statistics block of the timer function,
  run once for each sample in turn.
\<close>

fun record_samples :: "lattest_state \<Rightarrow> 64 word list \<Rightarrow> fault + lattest_state" where
  "record_samples s [] = Inr s"
| "record_samples s (diff_ns # ds) =
     (case statistics s diff_ns of
        Inl e \<Rightarrow> Inl e
      | Inr s' \<Rightarrow> record_samples s' ds)"


subsection \<open>The earlier revision, lattest.c\<close>

text \<open>
  The file \<^verbatim>\<open>lattest/lattest.c\<close> is the revision before the statistics were added: a
  histogram of \<^verbatim>\<open>HIST_BIN_NUM\<close> = 20 bins of \<open>2^HIST_BIN_LSBS\<close> = 1024 ns, and the
  minimum and maximum. Its names are those of the later revision and carry the suffix
  \<open>rev1\<close> here.
\<close>

definition HIST_BIN_NUM :: nat where
  "HIST_BIN_NUM = 20"

definition HIST_BIN_LSBS :: nat where
  "HIST_BIN_LSBS = 10"

record lattest_rev1_state =
  period_ms_rev1 :: "32 word"
  runcount_rev1 :: "32 word"
  last_now_ns_rev1 :: "64 word"
  histogram_rev1 :: "32 word list"
  hist_min_rev1 :: "64 word"
  hist_max_rev1 :: "64 word"

text \<open>The state after \<^verbatim>\<open>lattest_init\<close> of lattest.c: the statics, then the defaults.\<close>

definition lattest_init_rev1 :: lattest_rev1_state where
  "lattest_init_rev1 =
     \<lparr> period_ms_rev1 = 10, runcount_rev1 = 0, last_now_ns_rev1 = 0,
       histogram_rev1 = replicate HIST_BIN_NUM 0,
       hist_min_rev1 = LLONG_MAX, hist_max_rev1 = LLONG_MIN \<rparr>"

text \<open>
  \<^verbatim>\<open>lattest_timer_function\<close> of lattest.c. The assignment
  \<^verbatim>\<open>last_now_ns = now_ns;\<close> stands before the test \<^verbatim>\<open>if (last_now_ns != 0)\<close> and
  before \<^verbatim>\<open>diff_ns = now_ns - last_now_ns;\<close>.
\<close>

definition lattest_timer_function_rev1 ::
  "lattest_rev1_state \<Rightarrow> 64 word \<Rightarrow> fault + (hrtimer_restart \<times> lattest_rev1_state)" where
  "lattest_timer_function_rev1 s now_ns =
     (let s1 = s\<lparr>last_now_ns_rev1 := now_ns\<rparr>
      in case (if last_now_ns_rev1 s1 \<noteq> 0
               then (let diff_ns = now_ns - last_now_ns_rev1 s1;
                         diff_ns = diff_ns - ucast (period_ms_rev1 s1 * 1000000);
                         hist_bin = signed_drop_bit HIST_BIN_LSBS diff_ns
                                    + word_of_nat (drop_bit 1 HIST_BIN_NUM);
                         hist_bin = (if hist_bin <s 0 then 0 else hist_bin);
                         hist_bin = (if word_of_nat HIST_BIN_NUM - 1 <s hist_bin
                                     then word_of_nat HIST_BIN_NUM - 1 else hist_bin)
                     in case histogram_incr (histogram_rev1 s1) hist_bin of
                          Inl e \<Rightarrow> Inl e
                        | Inr h \<Rightarrow>
                            (let s2 = s1\<lparr>histogram_rev1 := h\<rparr>;
                                 s3 = s2\<lparr>hist_min_rev1 :=
                                          (if diff_ns <s hist_min_rev1 s2 then diff_ns
                                           else hist_min_rev1 s2)\<rparr>;
                                 s4 = s3\<lparr>hist_max_rev1 :=
                                          (if hist_max_rev1 s3 <s diff_ns then diff_ns
                                           else hist_max_rev1 s3)\<rparr>
                             in Inr s4))
               else Inr s1) of
           Inl e \<Rightarrow> Inl e
         | Inr s5 \<Rightarrow>
             if 0 <s runcount_rev1 s5
             then Inr (HRTIMER_RESTART, s5\<lparr>runcount_rev1 := runcount_rev1 s5 - 1\<rparr>)
             else if runcount_rev1 s5 = 0 then Inr (HRTIMER_NORESTART, s5)
             else Inr (HRTIMER_RESTART, s5))"

text \<open>
  Expiries of the timer of lattest.c, from a state in which \<^verbatim>\<open>hrtimer_start\<close> has enqueued
  it: the callback runs at each of the times until it returns \<^verbatim>\<open>HRTIMER_NORESTART\<close>.
\<close>

fun run_timer_rev1 ::
  "lattest_rev1_state \<Rightarrow> 64 word list \<Rightarrow> fault + (nat \<times> lattest_rev1_state)" where
  "run_timer_rev1 s [] = Inr (0, s)"
| "run_timer_rev1 s (now_ns # ts) =
     (case lattest_timer_function_rev1 s now_ns of
        Inl e \<Rightarrow> Inl e
      | Inr (r, s') \<Rightarrow>
          if r = HRTIMER_RESTART
          then (case run_timer_rev1 s' ts of
                  Inl e \<Rightarrow> Inl e
                | Inr (k, s'') \<Rightarrow> Inr (Suc k, s''))
          else Inr (Suc 0, s'))"

text \<open>
  \<^verbatim>\<open>store_control_cb\<close> of lattest.c: as in the later revision, but the statistics are
  not reset (\<^verbatim>\<open>// reset statistics // TODO\<close>).
\<close>

definition store_control_cb_rev1 ::
  "(string \<Rightarrow> 32 word option) \<Rightarrow> lattest_rev1_state \<Rightarrow> string \<Rightarrow> nat
     \<Rightarrow> (errno + nat) \<times> lattest_rev1_state" where
  "store_control_cb_rev1 kstrtoint s buf count =
     (if strncmp_eq buf ''stop'' (min 4 count) then (Inr count, s\<lparr>runcount_rev1 := 0\<rparr>)
      else if strncmp_eq buf ''infinite'' (min 8 count)
      then (if runcount_rev1 s \<noteq> 0 then (Inl EINVAL, s)
            else (Inr count, s\<lparr>runcount_rev1 := - 1, last_now_ns_rev1 := 0\<rparr>))
      else (if runcount_rev1 s \<noteq> 0 then (Inl EINVAL, s)
            else case kstrtoint buf of
                   None \<Rightarrow> (Inl EINVAL, s)
                 | Some new_runcount \<Rightarrow>
                     if new_runcount \<le>s 0 then (Inl EINVAL, s)
                     else (Inr count, s\<lparr>runcount_rev1 := new_runcount, last_now_ns_rev1 := 0\<rparr>)))"

section \<open>Facts about 64-bit words\<close>

lemma uint_eq_sint_nonneg:
  fixes w :: "64 word"
  assumes "0 \<le> sint w"
  shows "uint w = sint w"
proof -
  have "sint w < 2 ^ 64"
    using sint_lt [of w] by simp
  with assms show ?thesis
    by (simp add: uint_sint take_bit_int_eq_self)
qed

lemma sint_eq_uint_small:
  fixes w :: "64 word"
  assumes "uint w < 2 ^ 63"
  shows "sint w = uint w"
proof -
  have "- (2 ^ 63) \<le> uint w"
    by (rule order_trans [of _ 0]) simp_all
  then have "signed_take_bit 63 (uint w) = uint w"
    using assms by (rule signed_take_bit_int_eq_self)
  then show ?thesis
    by (simp add: sint_uint)
qed

lemma uint_eq_sint_neg:
  fixes w :: "64 word"
  assumes "sint w < 0"
  shows "uint w = sint w + 2 ^ 64"
proof -
  have "- (2 ^ 63) \<le> sint w"
    using sint_ge [of w] by simp
  then have "(sint w + 2 ^ 64) mod 2 ^ 64 = sint w + 2 ^ 64"
    using assms by (intro mod_pos_pos_trivial) simp_all
  then have "sint w mod 2 ^ 64 = sint w + 2 ^ 64"
    by simp
  then show ?thesis
    by (simp add: uint_sint take_bit_eq_mod)
qed

lemma sint_add64:
  fixes a b :: "64 word"
  assumes "- (2 ^ 63) \<le> sint a + sint b" "sint a + sint b < 2 ^ 63"
  shows "sint (a + b) = sint a + sint b"
  using assms by (simp add: sint_word_add signed_take_bit_int_eq_self)

lemma sint_diff64:
  fixes a b :: "64 word"
  assumes "- (2 ^ 63) \<le> sint a - sint b" "sint a - sint b < 2 ^ 63"
  shows "sint (a - b) = sint a - sint b"
  using assms by (simp add: sint_word_diff signed_take_bit_int_eq_self)

lemma uint_abs_ll: "uint (abs_ll n) = \<bar>sint n\<bar>"
proof (cases "sint n < 0")
  case True
  have "- (2 ^ 63) \<le> sint n"
    using sint_ge [of n] by simp
  have "uint (- n) = (- uint n) mod 2 ^ 64"
    by (simp add: uint_word_ariths)
  also have "\<dots> = (- sint n - 2 ^ 64) mod 2 ^ 64"
    using True by (simp add: uint_eq_sint_neg)
  also have "\<dots> = (- sint n) mod 2 ^ 64"
    by (metis minus_mod_self2) 
  also have "\<dots> = - sint n"
    using True \<open>- (2 ^ 63) \<le> sint n\<close> by simp
  finally show ?thesis
    using True by (simp add: abs_ll_def word_sless_alt)
next
  case False
  then show ?thesis
    by (simp add: abs_ll_def word_sless_alt uint_eq_sint_nonneg)
qed

section \<open>Signed division\<close>

lemma do_div_small:
  fixes a b :: "64 word"
  assumes "0 < uint b" "uint b < 2 ^ 32"
  shows "do_div a b = Inr (a div b)"
proof -
  have "take_bit 32 (uint b) = uint b"
    using assms by (simp add: take_bit_int_eq_self)
  then have eq: "(ucast (ucast b :: 32 word) :: 64 word) = b"
    by (simp add: word_eq_iff_unsigned [where ?'a = int] unsigned_ucast_eq unsigned_take_bit_eq) 
  have "b \<noteq> 0"
    using assms by auto
  with eq have "(ucast b :: 32 word) \<noteq> 0"
    by auto
  with eq show ?thesis
    by (simp add: do_div_def)
qed

lemma sint_minus_of_uint:
  fixes q :: "64 word"
  assumes "uint q \<le> 2 ^ 63"
  shows "sint (- q) = - uint q"
proof -
  have "sint (- q) = signed_take_bit 63 (- sint q)"
    by (simp add: sint_word_minus)
  also have "\<dots> = signed_take_bit 63 (- signed_take_bit 63 (uint q))"
    by (subst sint_uint) simp
  also have "\<dots> = signed_take_bit 63 (- uint q)"
    by (rule signed_take_bit_minus)
  also have "\<dots> = - uint q"
  proof (rule signed_take_bit_int_eq_self)
    show "- (2 ^ 63) \<le> - uint q"
      using assms by simp
    have "- uint q \<le> 0"
      by simp
    also have "(0::int) < 2 ^ 63"
      by simp
    finally show "- uint q < 2 ^ 63" .
  qed
  finally show ?thesis .
qed

lemma LLONG_MIN_iff: "n = LLONG_MIN \<longleftrightarrow> sint n = - (2 ^ 63)"
proof
  assume "n = LLONG_MIN"
  then show "sint n = - (2 ^ 63)"
    by (simp add: LLONG_MIN_def)
next
  assume "sint n = - (2 ^ 63)"
  then have "sint n = sint LLONG_MIN"
    by (simp add: LLONG_MIN_def)
  then show "n = LLONG_MIN"
    by (rule signed_word_eqI)
qed

lemma minus_one_iff: "(d :: 64 word) = - 1 \<longleftrightarrow> sint d = - 1"
proof
  assume "d = - 1"
  then show "sint d = - 1"
    by simp
next
  assume "sint d = - 1"
  then have "sint d = sint (- 1 :: 64 word)"
    by simp
  then show "d = - 1"
    by (rule signed_word_eqI)
qed

lemma div_ll_sdiv:
  assumes d: "0 < \<bar>sint d\<bar>" "\<bar>sint d\<bar> < 2 ^ 32"
    and novf: "\<not> (n = LLONG_MIN \<and> d = - 1)"
  shows "\<exists>q. div_ll n d = Inr q \<and> sint q = sint n sdiv sint d"
proof -
  let ?a = "abs_ll n" and ?b = "abs_ll d"
  let ?Q = "\<bar>sint n\<bar> div \<bar>sint d\<bar>"
  have ub: "uint ?b = \<bar>sint d\<bar>" and ua: "uint ?a = \<bar>sint n\<bar>"
    by (simp_all add: uint_abs_ll)
  have dd: "do_div ?a ?b = Inr (?a div ?b)"
    using d by (intro do_div_small) (simp_all add: ub)
  have uq: "uint (?a div ?b) = ?Q"
    by (simp add: uint_div_distrib ua ub)
  have nb: "\<bar>sint n\<bar> \<le> 2 ^ 63"
    using sint_ge [of n] sint_lt [of n] by simp
  have "?Q \<le> \<bar>sint n\<bar>"
    by (metis abs_ge_zero div_0 int_div_le_self leI nle_le)
  with nb have Qb: "?Q \<le> 2 ^ 63"
    by simp
  show ?thesis
  proof (cases "(n <s 0) \<noteq> (d <s 0)")
    case True
    then have res: "div_ll n d = Inr (- (?a div ?b))"
      by (simp add: div_ll_def dd)
    have "sint (- (?a div ?b)) = - ?Q"
      using Qb sint_minus_of_uint [of "?a div ?b"] by (simp add: uq)
    moreover have "sint n sdiv sint d = - ?Q"
      using True by (auto simp add: signed_divide_int_def word_sless_alt sgn_if)
    ultimately show ?thesis
      using res by simp
  next
    case False
    then have res: "div_ll n d = Inr (?a div ?b)"
      by (simp add: div_ll_def dd)
    have sd: "sint n sdiv sint d = ?Q"
      using False d by (auto simp add: signed_divide_int_def word_sless_alt sgn_if)
    have "?Q < 2 ^ 63"
    proof (rule ccontr)
      assume "\<not> ?Q < 2 ^ 63"
      with Qb have Q: "?Q = 2 ^ 63"
        by simp
      with \<open>?Q \<le> \<bar>sint n\<bar>\<close> nb have n: "\<bar>sint n\<bar> = 2 ^ 63"
        by simp
      then have "sint n = - (2 ^ 63)"
        using sint_lt [of n] by simp
      then have nmin: "n = LLONG_MIN"
        by (simp add: LLONG_MIN_iff)
      have "\<bar>sint d\<bar> = 1"
      proof (rule ccontr)
        assume "\<bar>sint d\<bar> \<noteq> 1"
        with d have "2 \<le> \<bar>sint d\<bar>"
          by simp
        then have "\<bar>sint n\<bar> div \<bar>sint d\<bar> \<le> \<bar>sint n\<bar> div 2"
          by (intro zdiv_mono2) simp_all
        with Q n show False
          by simp
      qed
      moreover have "sint d < 0"
        using False \<open>sint n = - (2 ^ 63)\<close> by (simp add: word_sless_alt)
      ultimately have "sint d = - 1"
        by simp
      then have "d = - 1"
        by (simp add: minus_one_iff)
      with nmin novf show False
        by simp
    qed
    then have "sint (?a div ?b) = ?Q"
      using sint_eq_uint_small [of "?a div ?b"] by (simp add: uq)
    with sd res show ?thesis
      by simp
  qed
qed

text \<open>
  Claim C7, as amended. \<^verbatim>\<open>div_ll(n, d)\<close> divides the absolute values and restores the
  sign from \<open>sign(n) XOR sign(d)\<close>; the result is the quotient truncated toward zero,
  and quotient times divisor plus the (discarded) remainder gives back \<open>n\<close>, for every
  sign combination, provided the divisor is not zero and its magnitude is below
  \<open>2^32\<close> (\<^verbatim>\<open>do_div\<close> keeps only 32 bits of it), and the quotient is representable
  (not \<^verbatim>\<open>LLONG_MIN / -1\<close>).
\<close>

theorem div_ll_truncates:
  assumes "sint d \<noteq> 0" and "\<bar>sint d\<bar> < 2 ^ 32" and "\<not> (n = LLONG_MIN \<and> d = - 1)"
  shows "\<exists>q. div_ll n d = Inr q
           \<and> sint q = sgn (sint n) * sgn (sint d) * (\<bar>sint n\<bar> div \<bar>sint d\<bar>)
           \<and> sint q = sint n sdiv sint d
           \<and> sint q * sint d + sint n smod sint d = sint n"
proof -
  from assms(1) have "0 < \<bar>sint d\<bar>"
    by simp
  from div_ll_sdiv [OF this assms(2,3)]
  obtain q where q: "div_ll n d = Inr q" "sint q = sint n sdiv sint d"
    by blast
  moreover have "sint n sdiv sint d * sint d + sint n smod sint d = sint n"
    by (rule sdiv_mult_smod_eq)
  ultimately show ?thesis
    by (simp add: signed_divide_int_def)
qed

text \<open>The examples of the claim, and the two remaining sign combinations.\<close>

theorem div_ll_truncates_witness:
  "div_ll (- 7) 2 = Inr (- 3) \<and> div_ll 7 (- 2) = Inr (- 3) \<and> div_ll (- 7) (- 2) = Inr 3 \<and> div_ll 7 2 = Inr 3"
proof -
  have a: "sint (2 :: 64 word) \<noteq> 0" "\<bar>sint (2 :: 64 word)\<bar> < 2 ^ 32"
       "sint (- 2 :: 64 word) \<noteq> 0" "\<bar>sint (- 2 :: 64 word)\<bar> < 2 ^ 32"
       "\<not> ((- 7 :: 64 word) = LLONG_MIN \<and> (2 :: 64 word) = - 1)"
       "\<not> ((7 :: 64 word) = LLONG_MIN \<and> (- 2 :: 64 word) = - 1)"
       "\<not> ((- 7 :: 64 word) = LLONG_MIN \<and> (- 2 :: 64 word) = - 1)"
       "\<not> ((7 :: 64 word) = LLONG_MIN \<and> (2 :: 64 word) = - 1)"
    by (simp_all add: LLONG_MIN_def)
  have s: "\<And>q :: 64 word. sint q = - 3 \<longleftrightarrow> q = - 3" "\<And>q :: 64 word. sint q = 3 \<longleftrightarrow> q = 3"
    using word_eq_iff_signed [where ?'a = int, of _ "- 3 :: 64 word"]
      word_eq_iff_signed [where ?'a = int, of _ "3 :: 64 word"] by simp_all
  show ?thesis
    using div_ll_truncates [OF a(1,2,5)] div_ll_truncates [OF a(3,4,6)]
      div_ll_truncates [OF a(3,4,7)] div_ll_truncates [OF a(1,2,8)]
    by (auto simp add: s)
qed

text \<open>
  With a nonzero divisor of \<open>2^32 + 1\<close> the result is the dividend itself, not the
  quotient 1; with the divisor \<open>2^32\<close> the division traps.
\<close>

theorem div_ll_wide_divisor_counterexample:
  "div_ll 8589934592 4294967297 = Inr 8589934592
   \<and> sint (8589934592 :: 64 word) sdiv sint (4294967297 :: 64 word) = 1
   \<and> div_ll 8589934592 4294967296 = Inl DivideByZero"
  by (simp add: div_ll_def do_div_def abs_ll_def word_sless_alt signed_divide_int_def)

section \<open>Histogram bin bounds\<close>

lemma HIST_BIN_LOW_step: "HIST_BIN_LOW s (i + 1) - HIST_BIN_LOW s i = hist_bin_width s"
  by (simp add: HIST_BIN_LOW_def algebra_simps)

lemma even_word_iff_sint: "even (n :: 64 word) \<longleftrightarrow> even (sint n)"
  using bit_sint_iff [of n 0] by (simp add: bit_0)

lemma num_halves:
  fixes n :: "64 word"
  assumes "1 \<le>s n" "n \<le>s 256"
  shows "sint (signed_drop_bit 1 (n + 1)) = (sint n + 1) div 2"
    and "sint (n div 2) = sint n div 2"
    and "sint ((n - 1) div 2) = (sint n - 1) div 2"
proof -
  from assms have b: "1 \<le> sint n" "sint n \<le> 256"
    by (simp_all add: word_sle_eq)
  have s1: "sint (n + 1) = sint n + 1"
    using b sint_add64 [of n 1] by simp
  then show "sint (signed_drop_bit 1 (n + 1)) = (sint n + 1) div 2"
    by (simp add: sint_signed_drop_bit_eq drop_bit_eq_div)
  have "uint n = sint n"
    using b by (simp add: uint_eq_sint_nonneg)
  then have "uint (n div 2) = sint n div 2"
    by (simp add: uint_div_distrib)
  then show "sint (n div 2) = sint n div 2"
    using b sint_eq_uint_small [of "n div 2"] by simp
  have m1: "sint (n - 1) = sint n - 1"
    using b sint_diff64 [of n 1] by simp
  then have "uint (n - 1) = sint n - 1"
    using b by (simp add: uint_eq_sint_nonneg)
  then have "uint ((n - 1) div 2) = (sint n - 1) div 2"
    by (simp add: uint_div_distrib)
  then show "sint ((n - 1) div 2) = (sint n - 1) div 2"
    using b sint_eq_uint_small [of "(n - 1) div 2"] by simp
qed

lemma HIST_BIN_LOW_even:
  assumes n: "1 \<le>s hist_bin_num s" "hist_bin_num s \<le>s 256"
    and ev: "even (hist_bin_num s)"
  shows "HIST_BIN_LOW s (hist_bin_num s div 2) = 0"
proof -
  let ?n = "hist_bin_num s"
  have "even (sint ?n)"
    using ev by (simp add: even_word_iff_sint)
  then have "sint (signed_drop_bit 1 (?n + 1)) = sint (?n div 2)"
    using num_halves(1,2) [OF n] by simp
  then have h: "signed_drop_bit 1 (?n + 1) = ?n div 2"
    by (rule signed_word_eqI)
  have a: "?n AND 1 = 0"
    using ev by (simp add: and_one_eq even_iff_mod_2_eq_zero)
  show ?thesis
    unfolding HIST_BIN_LOW_def h a by simp
qed

lemma HIST_BIN_LOW_odd:
  assumes n: "1 \<le>s hist_bin_num s" "hist_bin_num s \<le>s 256"
    and od: "odd (hist_bin_num s)"
    and w: "0 <s hist_bin_width s"
  shows "sint (HIST_BIN_LOW s ((hist_bin_num s - 1) div 2))
         = sint (hist_bin_width s) div 2 - sint (hist_bin_width s)"
proof -
  let ?n = "hist_bin_num s" and ?w = "hist_bin_width s"
  let ?i = "(?n - 1) div 2"
  from n have b: "1 \<le> sint ?n" "sint ?n \<le> 256"
    by (simp_all add: word_sle_eq)
  have "odd (sint ?n)"
    using od by (simp add: even_word_iff_sint)
  then have "(sint ?n + 1) div 2 = (sint ?n - 1) div 2 + 1"
    by presburger
  moreover have "sint (?i + 1) = sint ?i + 1"
    using b num_halves(3) [OF n] sint_add64 [of ?i 1] by simp
  ultimately have "sint (signed_drop_bit 1 (?n + 1)) = sint (?i + 1)"
    using num_halves(1,3) [OF n] by simp
  then have h: "signed_drop_bit 1 (?n + 1) = ?i + 1"
    by (rule signed_word_eqI)
  have a: "?n AND 1 = 1"
    using od by (simp add: and_one_eq odd_iff_mod_2_eq_one)
  have low: "HIST_BIN_LOW s ?i = signed_drop_bit 1 ?w - ?w"
    unfolding HIST_BIN_LOW_def h a by simp
  from w have wp: "0 < sint ?w"
    by (simp add: word_sless_alt)
  have wb: "sint ?w < 2 ^ 63"
    using sint_lt [of ?w] by simp
  have hw: "sint (signed_drop_bit 1 ?w) = sint ?w div 2"
    by (simp add: sint_signed_drop_bit_eq drop_bit_eq_div)
  have "sint (signed_drop_bit 1 ?w - ?w) = sint (signed_drop_bit 1 ?w) - sint ?w"
    by (intro sint_diff64) (use wp wb hw in simp_all)
  with hw show ?thesis
    unfolding low by simp
qed

text \<open>
  Claim C4, as amended. For every configuration with \<open>1 \<le> hist_bin_num \<le> 256\<close> and
  \<open>hist_bin_width > 0\<close>: consecutive lower bounds differ by the bin width, for every
  \<open>i\<close>; for an even number of bins the bin \<open>hist_bin_num / 2\<close> starts at 0; for an odd
  number of bins the bin \<open>(hist_bin_num - 1) / 2\<close> starts at
  \<open>hist_bin_width / 2 - hist_bin_width\<close>, which is \<open>- hist_bin_width / 2\<close> under C's
  truncating division when the width is even.
\<close>

theorem HIST_BIN_LOW_layout:
  assumes "1 \<le>s hist_bin_num s" and "hist_bin_num s \<le>s 256" and "0 <s hist_bin_width s"
  shows "HIST_BIN_LOW s (i + 1) - HIST_BIN_LOW s i = hist_bin_width s
       \<and> (even (hist_bin_num s) \<longrightarrow> HIST_BIN_LOW s (hist_bin_num s div 2) = 0)
       \<and> (odd (hist_bin_num s) \<longrightarrow>
            sint (HIST_BIN_LOW s ((hist_bin_num s - 1) div 2))
              = sint (hist_bin_width s) div 2 - sint (hist_bin_width s))
       \<and> (odd (hist_bin_num s) \<and> even (hist_bin_width s) \<longrightarrow>
            sint (HIST_BIN_LOW s ((hist_bin_num s - 1) div 2))
              = - (sint (hist_bin_width s) sdiv 2))"
proof -
  have "sint (hist_bin_width s) div 2 - sint (hist_bin_width s) = - (sint (hist_bin_width s) sdiv 2)"
    if "even (hist_bin_width s)"
  proof -
    from that have "even (sint (hist_bin_width s))"
      by (simp add: even_word_iff_sint)
    moreover from assms(3) have "0 < sint (hist_bin_width s)"
      by (simp add: word_sless_alt)
    ultimately show ?thesis
      by (auto simp add: signed_divide_int_def elim!: evenE)
  qed
  then show ?thesis
    using HIST_BIN_LOW_step [of s i] HIST_BIN_LOW_even [OF assms(1,2)]
      HIST_BIN_LOW_odd [OF assms(1,2) _ assms(3)]
    by simp
qed

text \<open>The default layout (20 bins of 1000 ns), and the layout with 19 bins.\<close>

theorem HIST_BIN_LOW_layout_witness:
  "HIST_BIN_LOW lattest_init 10 = 0
   \<and> HIST_BIN_LOW lattest_init (10 + 1) - HIST_BIN_LOW lattest_init 10 = 1000
   \<and> sint (HIST_BIN_LOW (lattest_init\<lparr>hist_bin_num := 19\<rparr>) 9) = - 500"
proof -
  have a: "1 \<le>s hist_bin_num lattest_init" "hist_bin_num lattest_init \<le>s 256"
    "0 <s hist_bin_width lattest_init"
    by (simp_all add: lattest_init_def word_sle_eq word_sless_alt)
  have b: "1 \<le>s hist_bin_num (lattest_init\<lparr>hist_bin_num := 19\<rparr>)"
    "hist_bin_num (lattest_init\<lparr>hist_bin_num := 19\<rparr>) \<le>s 256"
    "0 <s hist_bin_width (lattest_init\<lparr>hist_bin_num := 19\<rparr>)"
    by (simp_all add: lattest_init_def word_sle_eq word_sless_alt)
  show ?thesis
    using HIST_BIN_LOW_layout [OF a, of 10] HIST_BIN_LOW_layout [OF b, of 0]
    by (auto simp add: lattest_init_def)
qed

text \<open>
  With 19 bins of width 3 the middle bin starts at \<open>-2\<close>, while \<open>-3 / 2\<close> is \<open>-1\<close>
  under truncating division, whichever way the sign is applied.
\<close>

theorem HIST_BIN_LOW_odd_width_counterexample:
  "sint (HIST_BIN_LOW (lattest_init\<lparr>hist_bin_num := 19, hist_bin_width := 3\<rparr>) ((19 - 1) div 2)) = - 2
   \<and> - ((3 :: int) sdiv 2) = - 1 \<and> (- 3 :: int) sdiv 2 = - 1"
  by (simp add: HIST_BIN_LOW_def lattest_init_def signed_divide_int_def)

section \<open>Histogram bin index\<close>

lemma div_ll_defined:
  "(\<exists>q. div_ll n d = Inr q) \<longleftrightarrow> (ucast (abs_ll d) :: 32 word) \<noteq> 0"
  by (simp add: div_ll_def do_div_def Let_def)

lemma div_ll_fault:
  "div_ll n d = Inl e \<Longrightarrow> e = DivideByZero"
  by (simp add: div_ll_def do_div_def Let_def split: if_splits)

lemma hist_bin_range:
  assumes n: "1 \<le>s hist_bin_num s" "hist_bin_num s \<le>s 256"
    and b: "hist_bin s diff_ns = Inr b"
  shows "0 \<le> sint b \<and> sint b \<le> sint (hist_bin_num s) - 1"
proof -
  from n have nb: "1 \<le> sint (hist_bin_num s)" "sint (hist_bin_num s) \<le> 256"
    by (simp_all add: word_sle_eq)
  then have m1: "sint (hist_bin_num s - 1) = sint (hist_bin_num s) - 1"
    using sint_diff64 [of "hist_bin_num s" 1] by simp
  from b obtain q where q: "div_ll (diff_ns - HIST_BIN_LOW s 0) (hist_bin_width s) = Inr q"
    and bq: "b = (let b1 = (if q <s 0 then 0 else q)
                  in if hist_bin_num s \<le>s b1 then hist_bin_num s - 1 else b1)"
    by (auto simp add: hist_bin_def Let_def split: sum.splits)
  show ?thesis
    using nb m1 unfolding bq Let_def
    by (auto simp add: word_sle_eq word_sless_alt)
qed

lemma hist_bin_defined:
  "(\<exists>b. hist_bin s diff_ns = Inr b) \<longleftrightarrow> (ucast (abs_ll (hist_bin_width s)) :: 32 word) \<noteq> 0"
  using div_ll_defined [of "diff_ns - HIST_BIN_LOW s 0" "hist_bin_width s"]
  by (auto simp add: hist_bin_def Let_def split: sum.splits)

lemma histogram_incr_ok:
  assumes "0 \<le> sint b" "sint b < int (length h)"
  shows "histogram_incr h b = Inr (h[nat (sint b) := h ! nat (sint b) + 1])"
  using assms by (simp add: histogram_incr_def)

lemma hist_bin_stat_update [simp]:
  "hist_bin (s\<lparr>stat_min := a\<rparr>) = hist_bin s"
  "hist_bin (s\<lparr>stat_max := a\<rparr>) = hist_bin s"
  "hist_bin (s\<lparr>stat_num := a\<rparr>) = hist_bin s"
  "hist_bin (s\<lparr>stat_sum := a\<rparr>) = hist_bin s"
  "hist_bin (s\<lparr>stat_sumsq := a\<rparr>) = hist_bin s"
  by (simp_all add: hist_bin_def HIST_BIN_LOW_def fun_eq_iff Let_def split: sum.splits)

lemma statistics_eq:
  "statistics s diff_ns =
     (case hist_bin s diff_ns of
        Inl e \<Rightarrow> Inl e
      | Inr b \<Rightarrow>
          (case histogram_incr (histogram s) b of
             Inl e \<Rightarrow> Inl e
           | Inr h \<Rightarrow>
               Inr (s\<lparr>stat_min := (if diff_ns <s stat_min s then diff_ns else stat_min s),
                      stat_max := (if stat_max s <s diff_ns then diff_ns else stat_max s),
                      stat_num := stat_num s + 1,
                      stat_sum := stat_sum s + diff_ns,
                      stat_sumsq := stat_sumsq s + diff_ns * diff_ns,
                      histogram := h\<rparr>)))"
  by (simp add: statistics_def Let_def split: sum.splits)

text \<open>
  Claim C10. For every jitter value and every configuration with
  \<open>1 \<le> hist_bin_num \<le> 256\<close>, the bin index after the two clamping steps lies in
  \<open>[0, hist_bin_num - 1]\<close>, so the increment never indexes outside the array of
  \<^verbatim>\<open>HIST_BIN_MAX\<close> counters; and the index is computed whenever the division by the bin
  width does not trap.
\<close>

theorem hist_bin_in_array:
  assumes n: "1 \<le>s hist_bin_num s" "hist_bin_num s \<le>s 256"
    and len: "length (histogram s) = HIST_BIN_MAX"
  shows "(\<forall>b. hist_bin s diff_ns = Inr b \<longrightarrow>
            0 \<le> sint b \<and> sint b \<le> sint (hist_bin_num s) - 1 \<and> nat (sint b) < HIST_BIN_MAX)
       \<and> statistics s diff_ns \<noteq> Inl IndexOutOfBounds
       \<and> ((ucast (abs_ll (hist_bin_width s)) :: 32 word) \<noteq> 0 \<longrightarrow>
            (\<exists>b s'. hist_bin s diff_ns = Inr b \<and> statistics s diff_ns = Inr s'))"
proof -
  from n have nb: "sint (hist_bin_num s) \<le> 256"
    by (simp add: word_sle_eq)
  have r: "0 \<le> sint b \<and> sint b \<le> sint (hist_bin_num s) - 1 \<and> nat (sint b) < HIST_BIN_MAX"
    if "hist_bin s diff_ns = Inr b" for b
    using hist_bin_range [OF n that] nb by (simp add: HIST_BIN_MAX_def nat_less_iff)
  have i: "histogram_incr (histogram s) b = Inr ((histogram s)[nat (sint b) := histogram s ! nat (sint b) + 1])"
    if "hist_bin s diff_ns = Inr b" for b
    using r [OF that] nb by (intro histogram_incr_ok) (simp_all add: len HIST_BIN_MAX_def)
  have f: "e = DivideByZero" if "hist_bin s diff_ns = Inl e" for e
    using that div_ll_fault by (auto simp add: hist_bin_def Let_def split: sum.splits)
  have "statistics s diff_ns \<noteq> Inl IndexOutOfBounds"
    using i f by (cases "hist_bin s diff_ns") (auto simp add: statistics_eq)
  moreover have "\<exists>b s'. hist_bin s diff_ns = Inr b \<and> statistics s diff_ns = Inr s'"
    if "(ucast (abs_ll (hist_bin_width s)) :: 32 word) \<noteq> 0"
  proof -
    from that obtain b where b: "hist_bin s diff_ns = Inr b"
      using hist_bin_defined [of s diff_ns] by blast
    with i [OF b] show ?thesis
      by (simp add: statistics_eq)
  qed
  ultimately show ?thesis
    using r by blast
qed

text \<open>The default configuration, with a jitter beyond either end of the histogram.\<close>

theorem hist_bin_in_array_witness:
  "1 \<le>s hist_bin_num lattest_init \<and> hist_bin_num lattest_init \<le>s 256
   \<and> length (histogram lattest_init) = HIST_BIN_MAX
   \<and> hist_bin lattest_init 300000 = Inr 19
   \<and> hist_bin lattest_init (- 300000) = Inr 0
   \<and> statistics lattest_init 300000 \<noteq> Inl IndexOutOfBounds"
proof -
  have h: "1 \<le>s hist_bin_num lattest_init" "hist_bin_num lattest_init \<le>s 256"
    "length (histogram lattest_init) = HIST_BIN_MAX"
    by (simp_all add: lattest_init_def word_sle_eq HIST_BIN_MAX_def)
  have "hist_bin lattest_init 300000 = Inr 19" "hist_bin lattest_init (- 300000) = Inr 0"
    by (simp_all add: hist_bin_def HIST_BIN_LOW_def lattest_init_def div_ll_def do_div_def
        abs_ll_def word_sless_alt word_sle_eq)
  with h hist_bin_in_array [OF h, of 300000] show ?thesis
    by simp
qed

section \<open>Evaluating the callbacks on concrete inputs\<close>

lemma strncmp_eq_infinite:
  "strncmp_eq ''infinite'' ''infinite'' 8" "\<not> strncmp_eq ''infinite'' ''stop'' 4"
  by (simp_all add: eval_nat_numeral)


lemma strncmp_eq_5:
  "\<not> strncmp_eq ''5'' ''stop'' 1" "\<not> strncmp_eq ''5'' ''infinite'' 1"
  by (simp_all add: eval_nat_numeral)

lemmas eval_defs = lattest_timer_function_def statistics_def hist_bin_def histogram_incr_def
  HIST_BIN_LOW_def div_ll_def do_div_def abs_ll_def store_control_cb_def start_timer_def
  lattest_init_def HIST_BIN_MAX_def LLONG_MAX_def LLONG_MIN_def Let_def word_sless_alt word_sle_eq
  strncmp_eq_infinite strncmp_eq_5

section \<open>SysFS configuration callbacks\<close>






text \<open>
  Claim C3. \<^verbatim>\<open>store_config_cb\<close> is a stub: on a stopped module a request for 10 bins of
  500 ns returns 0 and leaves the bin count at 20 and the bin width at 1000; the
  callback never changes the state.
\<close>

theorem store_config_cb_unimplemented:
  "store_config_cb lattest_init ''10 500'' 6 = (Inr 0, lattest_init)
   \<and> hist_bin_num (snd (store_config_cb lattest_init ''10 500'' 6)) = 20
   \<and> hist_bin_width (snd (store_config_cb lattest_init ''10 500'' 6)) = 1000
   \<and> snd (store_config_cb s buf count) = s"
  by (simp add: store_config_cb_def lattest_init_def)

section \<open>Integer square root\<close>


lemma nat_sq_less_64:
  fixes s :: nat
  assumes "s\<^sup>2 \<le> X" "X < 2 ^ 64"
  shows "s < 2 ^ 32"
proof -
  have "s\<^sup>2 < (2 ^ 32 :: nat)\<^sup>2"
    using assms by simp
  then show ?thesis
    by (rule power2_less_imp_less) simp
qed

lemma dvd_gap:
  fixes s d m :: nat
  assumes "d dvd s" "d dvd m" "s < m"
  shows "s + d \<le> m"
proof -
  from assms obtain a b where ab: "s = d * a" "m = d * b"
    by (auto elim!: dvdE)
  with assms(3) have "a < b"
    by auto
  then have "Suc a \<le> b"
    by simp
  then have "d * Suc a \<le> d * b"
    by (rule mult_le_mono2)
  with ab show ?thesis
    by simp
qed

text \<open>One iteration's bounds: with \<open>P = 2^k\<close>, \<open>k \<le> 31\<close>, and \<open>s\<close> a multiple of \<open>2P\<close> below \<open>2^32\<close>.\<close>

lemma isqrt_step_bounds:
  fixes s k :: nat
  assumes k: "k \<le> 31" and d: "2 ^ (k + 1) dvd s" and s: "s < 2 ^ 32"
  shows "s + 2 ^ k < 2 ^ 32"
    and "s * 2 ^ (k + 1) + 4 ^ k < 2 ^ 64"
    and "s * 2 ^ (k + 1) + 2 * 4 ^ k < 2 ^ 64"
proof -
  have "(2::nat) ^ (k + 1) dvd 2 ^ 32"
    using k by (intro le_imp_power_dvd) simp
  from dvd_gap [OF d this s] have g: "s + 2 ^ (k + 1) \<le> 2 ^ 32" .
  have p: "(1::nat) \<le> 2 ^ k"
    by simp
  have "(2::nat) ^ (k + 1) = 2 * 2 ^ k"
    by simp
  with g p show sP: "s + 2 ^ k < 2 ^ 32"
    by linarith
  have "(2::nat) ^ (k + 1) \<le> 2 ^ 32"
    using k by (intro power_increasing) simp_all
  then have "2 ^ (k + 1) * (s + 2 ^ k) < (2 ^ 32 :: nat) * 2 ^ 32"
    using sP by (intro mult_le_less_imp_less) simp_all
  moreover have "2 ^ (k + 1) * (s + 2 ^ k) = s * 2 ^ (k + 1) + 2 * 4 ^ k"
    by (simp add: algebra_simps power2_eq_square flip: power_mult_distrib power_add mult_2)
  ultimately show "s * 2 ^ (k + 1) + 2 * 4 ^ k < 2 ^ 64"
    by simp
  then show "s * 2 ^ (k + 1) + 4 ^ k < 2 ^ 64"
    by simp
qed


lemma isqrt_loop_step:
  fixes X s k :: nat and op res one :: "64 word"
  assumes k: "k \<le> 31" and one: "unat one = 4 ^ k"
    and res: "unat res = s * 2 ^ (k + 1)" and dvd: "2 ^ (k + 1) dvd s"
    and lo: "s\<^sup>2 \<le> X" and X: "X < 2 ^ 64" and op: "unat op = X - s\<^sup>2"
  shows "\<exists>op' res' s'. isqrt_loop op res one = isqrt_loop op' res' (drop_bit 2 one)
           \<and> unat res' = s' * 2 ^ k \<and> unat op' = X - s'\<^sup>2 \<and> s'\<^sup>2 \<le> X
           \<and> (if (s + 2 ^ k)\<^sup>2 \<le> X then s' = s + 2 ^ k else s' = s)"
proof -
  have nz: "one \<noteq> 0"
    using one by (auto simp add: unat_eq_0 [symmetric] simp del: unat_eq_0)
  have s32: "s < 2 ^ 32"
    using lo X by (rule nat_sq_less_64)
  note b = isqrt_step_bounds [OF k dvd s32]
  have u1: "unat (res + one) = s * 2 ^ (k + 1) + 4 ^ k"
    using b(2) unat_add_lem [of res one] by (simp add: res one)
  have sq: "(s + 2 ^ k)\<^sup>2 = s\<^sup>2 + (s * 2 ^ (k + 1) + 4 ^ k)"
    by (simp add: power2_eq_square algebra_simps flip: power_mult_distrib)
  have cond: "res + one \<le> op \<longleftrightarrow> (s + 2 ^ k)\<^sup>2 \<le> X"
    using lo unfolding word_le_nat_alt u1 op sq by linarith
  show ?thesis
  proof (cases "(s + 2 ^ k)\<^sup>2 \<le> X")
    case True
    let ?op' = "op - (res + one)" and ?res' = "drop_bit 1 (res + 2 * one)"
    have unf: "isqrt_loop op res one = isqrt_loop ?op' ?res' (drop_bit 2 one)"
      using nz True cond by (subst isqrt_loop.simps) simp
    have "unat ?op' = unat op - unat (res + one)"
      using True cond by (intro unat_sub) simp
    then have o': "unat ?op' = X - (s + 2 ^ k)\<^sup>2"
      by (simp add: u1 op sq)
    have "unat (2 :: 64 word) * unat one < 2 ^ 64"
      using b(3) by (simp add: one)
    then have "unat (2 * one) = 2 * 4 ^ k"
      using unat_mult_lem [of 2 one] by (simp add: one)
    then have "unat (res + 2 * one) = s * 2 ^ (k + 1) + 2 * 4 ^ k"
      using b(3) unat_add_lem [of res "2 * one"] by (simp add: res)
    then have "unat ?res' = (s * 2 ^ (k + 1) + 2 * 4 ^ k) div 2"
      by (simp add: drop_bit_eq_div unat_div)
    also have "\<dots> = (s + 2 ^ k) * 2 ^ k"
      by (simp add: algebra_simps flip: power_mult_distrib)
    finally have r': "unat ?res' = (s + 2 ^ k) * 2 ^ k" .
    from unf r' o' True show ?thesis
      by (intro exI [of _ ?op'] exI [of _ ?res'] exI [of _ "s + 2 ^ k"]) simp
  next
    case False
    let ?res' = "drop_bit 1 res"
    have unf: "isqrt_loop op res one = isqrt_loop op ?res' (drop_bit 2 one)"
      using nz False cond by (subst isqrt_loop.simps) simp
    have r': "unat ?res' = s * 2 ^ k"
      by (simp add: drop_bit_eq_div unat_div res)
    from unf r' op lo False show ?thesis
      by (intro exI [of _ op] exI [of _ ?res'] exI [of _ s]) simp
  qed
qed


lemma isqrt_loop_zero: "isqrt_loop op res 0 = (op, res)"
  by (subst isqrt_loop.simps) simp

lemma isqrt_loop_correct:
  fixes X s k :: nat and op res one :: "64 word"
  assumes "k \<le> 31" and "unat one = 4 ^ k"
    and "unat res = s * 2 ^ (k + 1)" and "2 ^ (k + 1) dvd s"
    and "s\<^sup>2 \<le> X" and "X < (s + 2 ^ (k + 1))\<^sup>2" and "X < 2 ^ 64"
    and "unat op = X - s\<^sup>2"
  shows "\<exists>op' res'. isqrt_loop op res one = (op', res')
           \<and> (unat res')\<^sup>2 \<le> X \<and> X < (unat res' + 1)\<^sup>2 \<and> unat op' = X - (unat res')\<^sup>2"
  using assms
proof (induction k arbitrary: op res one s)
  case 0
  from isqrt_loop_step [OF "0.prems"(1,2,3,4,5,7,8)]
  obtain op' res' s' where st: "isqrt_loop op res one = isqrt_loop op' res' (drop_bit 2 one)"
    "unat res' = s' * 2 ^ 0" "unat op' = X - s'\<^sup>2" "s'\<^sup>2 \<le> X"
    "if (s + 2 ^ 0)\<^sup>2 \<le> X then s' = s + 2 ^ 0 else s' = s"
    by blast
  have "unat (drop_bit 2 one) = 0"
    using "0.prems"(2) by (simp add: drop_bit_eq_div unat_div)
  then have "drop_bit 2 one = 0"
    by (simp only: unat_eq_0)
  then have "isqrt_loop op res one = (op', res')"
    using st(1) by (simp add: isqrt_loop_zero)
  moreover have "X < (s' + 1)\<^sup>2"
    using st(5) "0.prems"(6) by (auto split: if_splits simp add: numeral_2_eq_2 add.assoc)
  ultimately show ?case
    using st(2,3,4) by simp
next
  case (Suc k)
  from isqrt_loop_step [OF Suc.prems(1,2,3,4,5,7,8)]
  obtain op' res' s' where st: "isqrt_loop op res one = isqrt_loop op' res' (drop_bit 2 one)"
    "unat res' = s' * 2 ^ Suc k" "unat op' = X - s'\<^sup>2" "s'\<^sup>2 \<le> X"
    "if (s + 2 ^ Suc k)\<^sup>2 \<le> X then s' = s + 2 ^ Suc k else s' = s"
    by blast
  have k: "k \<le> 31"
    using Suc.prems(1) by simp
  have one': "unat (drop_bit 2 one) = 4 ^ k"
    using Suc.prems(2) by (simp add: drop_bit_eq_div unat_div)
  have res': "unat res' = s' * 2 ^ (k + 1)"
    using st(2) by simp
  have d0: "(2::nat) ^ (k + 1) dvd 2 ^ (Suc k + 1)"
    by (intro le_imp_power_dvd) simp
  then have ds: "2 ^ (k + 1) dvd s"
    using Suc.prems(4) by (rule dvd_trans)
  have dvd': "2 ^ (k + 1) dvd s'"
    using st(5) ds by (auto split: if_splits)
  have hi': "X < (s' + 2 ^ (k + 1))\<^sup>2"
  proof (cases "(s + 2 ^ Suc k)\<^sup>2 \<le> X")
    case True
    with st(5) have "s' + 2 ^ (k + 1) = s + 2 ^ (Suc k + 1)"
      by simp
    with Suc.prems(6) show ?thesis
      by (simp add: add.commute)
  next
    case False
    with st(5) show ?thesis
      by simp
  qed
  from Suc.IH [OF k one' res' dvd' st(4) hi' Suc.prems(7) st(3)] st(1) show ?case
    by simp
qed


lemma isqrt_start_correct:
  fixes x one :: "64 word"
  assumes "k \<le> 31" and "unat one = 4 ^ k" and "unat x < 4 ^ (k + 1)"
  shows "(x = 0 \<and> isqrt_start one x = 0)
       \<or> (\<exists>j\<le>k. unat (isqrt_start one x) = 4 ^ j \<and> 4 ^ j \<le> unat x \<and> unat x < 4 ^ (j + 1))"
  using assms
proof (induction k arbitrary: one)
  case 0
  show ?case
  proof (cases "x < one")
    case True
    then have "unat x < 1"
      using "0.prems"(2) by (simp add: word_less_nat_alt)
    then have x: "x = 0"
      by (simp add: unat_eq_0)
    have "unat (drop_bit 2 one) = 0"
      using "0.prems"(2) by (simp add: drop_bit_eq_div unat_div)
    then have "drop_bit 2 one = 0"
      by (simp only: unat_eq_0)
    then have "isqrt_start one x = isqrt_start 0 0"
      using True x by (subst isqrt_start.simps) simp
    also have "\<dots> = 0"
      by (subst isqrt_start.simps) simp
    finally show ?thesis
      using x by simp
  next
    case False
    then have "isqrt_start one x = one"
      by (subst isqrt_start.simps) simp
    moreover from False have "unat one \<le> unat x"
      by (simp add: word_less_nat_alt)
    ultimately show ?thesis
      using "0.prems"(2,3) by auto
  qed
next
  case (Suc k)
  show ?case
  proof (cases "x < one")
    case True
    then have lt: "unat x < 4 ^ (k + 1)"
      using Suc.prems(2) by (simp add: word_less_nat_alt)
    have k: "k \<le> 31"
      using Suc.prems(1) by simp
    have one': "unat (drop_bit 2 one) = 4 ^ k"
      using Suc.prems(2) by (simp add: drop_bit_eq_div unat_div)
    have "isqrt_start one x = isqrt_start (drop_bit 2 one) x"
      using True by (subst isqrt_start.simps) simp
    with Suc.IH [OF k one' lt] show ?thesis
      by (auto intro: le_SucI)
  next
    case False
    then have "isqrt_start one x = one"
      by (subst isqrt_start.simps) simp
    moreover from False have "unat one \<le> unat x"
      by (simp add: word_less_nat_alt)
    ultimately show ?thesis
      using Suc.prems(2,3) by auto
  qed
qed

lemma isqrtu64_bounds:
  fixes x :: "64 word"
  defines "X \<equiv> unat x" and "R \<equiv> unat (isqrtu64 x)"
  shows "X \<le> R * R + R \<and> (R = 0 \<or> R * R < X + R)"
proof -
  have X64: "X < 2 ^ 64"
    unfolding X_def using unsigned_less [of x, where ?'a = nat] by simp
  let ?one = "isqrt_start (push_bit 62 1) x"
  have "\<exists>op res. isqrt_loop x 0 ?one = (op, res)
          \<and> (unat res)\<^sup>2 \<le> X \<and> X < (unat res + 1)\<^sup>2 \<and> unat op = X - (unat res)\<^sup>2"
  proof -
    have "unat (push_bit 62 1 :: 64 word) = 4 ^ 31"
      by simp
    moreover have "unat x < 4 ^ (31 + 1)"
      using X64 by (simp add: X_def)
    ultimately consider "x = 0" "?one = 0"
      | j where "j \<le> 31" "unat ?one = 4 ^ j" "4 ^ j \<le> unat x" "unat x < 4 ^ (j + 1)"
      using isqrt_start_correct [of 31 "push_bit 62 1" x] by auto
    then show ?thesis
    proof cases
      case 1
      then show ?thesis
        by (simp add: isqrt_loop_zero X_def)
    next
      case 2
      have "X < (0 + 2 ^ (j + 1))\<^sup>2"
        using 2(4) by (simp add: X_def power2_eq_square flip: power_mult_distrib)
      then show ?thesis
        using 2(1,2) X64 by (intro isqrt_loop_correct [where s = 0 and k = j]) (simp_all add: X_def)
    qed
  qed
  then obtain op res where l: "isqrt_loop x 0 ?one = (op, res)"
    and lo: "(unat res)\<^sup>2 \<le> X" and hi: "X < (unat res + 1)\<^sup>2"
    and op: "unat op = X - (unat res)\<^sup>2"
    by blast
  have r32: "unat res < 2 ^ 32"
    using lo X64 by (rule nat_sq_less_64)
  have R: "R = (if unat res < unat op then unat res + 1 else unat res)"
  proof -
    have "unat (res + 1) = unat res + 1"
      using r32 unat_add_lem [of res 1] by simp
    moreover have "isqrtu64 x = (if res < op then res + 1 else res)"
      unfolding isqrtu64_def Let_def l by simp
    ultimately show ?thesis
      by (simp add: R_def word_less_nat_alt)
  qed
  show ?thesis
  proof (cases "unat res < unat op")
    case True
    with R have "R = unat res + 1"
      by simp
    moreover have "(unat res + 1) * (unat res + 1) = (unat res)\<^sup>2 + 2 * unat res + 1"
      by (simp add: power2_eq_square)
    moreover have "(unat res)\<^sup>2 + unat res < X"
      using True op by simp
    ultimately show ?thesis
      using hi by (simp add: power2_eq_square)
  next
    case False
    with R have "R = unat res"
      by simp
    moreover have "X \<le> (unat res)\<^sup>2 + unat res"
      using False op by simp
    ultimately show ?thesis
      using lo by (cases "unat res = 0") (simp_all add: power2_eq_square)
  qed
qed

lemma round_sqrt_unique:
  fixes X R :: nat
  assumes "X \<le> R * R + R" and "R = 0 \<or> R * R < X + R"
  shows "nat \<lfloor>sqrt (real X) + 1 / 2\<rfloor> = R"
proof -
  have "\<lfloor>sqrt (real X) + 1 / 2\<rfloor> = int R"
  proof (rule floor_unique)
    have "real X < (real R + 1 / 2)\<^sup>2"
    proof -
      have "real X \<le> real (R * R + R)"
        using assms(1) by (simp only: of_nat_le_iff)
      also have "\<dots> < (real R + 1 / 2)\<^sup>2"
        by (simp add: power2_eq_square algebra_simps)
      finally show ?thesis .
    qed
    then have "sqrt (real X) < real R + 1 / 2"
      by (intro real_less_lsqrt) simp_all
    then show "sqrt (real X) + 1 / 2 < of_int (int R) + 1"
      by simp
    show "of_int (int R) \<le> sqrt (real X) + 1 / 2"
    proof (cases "R = 0")
      case True
      then show ?thesis
        by simp
    next
      case False
      with assms(2) have "R * R + 1 \<le> X + R"
        by simp
      then have "real (R * R + 1) \<le> real (X + R)"
        by (simp only: of_nat_le_iff)
      then have "(real R - 1 / 2)\<^sup>2 \<le> real X"
        by (simp add: power2_eq_square algebra_simps)
      then have "real R - 1 / 2 \<le> sqrt (real X)"
        by (rule real_le_rsqrt)
      then show ?thesis
        by simp
    qed
  qed
  then show ?thesis
    by simp
qed

lemma isqrtu64_rounded_sqrt:
  "unat (isqrtu64 x) = nat \<lfloor>sqrt (real (unat x)) + 1 / 2\<rfloor>"
  using isqrtu64_bounds [of x] by (intro round_sqrt_unique [symmetric]) simp_all

text \<open>
  Claim C8. For every \<open>x\<close> from 0 to 10000 (indeed for every 64-bit \<open>x\<close>) the result of
  \<^verbatim>\<open>isqrtu64\<close>, the binary digit-by-digit method, is the integer nearest to the square
  root of \<open>x\<close>, a tie going up: \<open>\<lfloor>\<surd>x + 1/2\<rfloor>\<close>. The results for 2, 3, 4, 6, 7, 8, 9 are
  1, 2, 2, 2, 3, 3, 3.
\<close>

theorem isqrtu64_rounds_to_nearest:
  "(\<forall>x\<le>10000. unat (isqrtu64 (word_of_nat x)) = nat \<lfloor>sqrt (real x) + 1 / 2\<rfloor>)
   \<and> unat (isqrtu64 w) = nat \<lfloor>sqrt (real (unat w)) + 1 / 2\<rfloor>
   \<and> isqrtu64 2 = 1 \<and> isqrtu64 3 = 2 \<and> isqrtu64 4 = 2 \<and> isqrtu64 6 = 2
   \<and> isqrtu64 7 = 3 \<and> isqrtu64 8 = 3 \<and> isqrtu64 9 = 3"
proof -
  have "unat (isqrtu64 (word_of_nat x)) = nat \<lfloor>sqrt (real x) + 1 / 2\<rfloor>" if "x \<le> 10000" for x
  proof -
    from that have "unat (word_of_nat x :: 64 word) = x"
      by (simp add: unat_of_nat)
    with isqrtu64_rounded_sqrt [of "word_of_nat x"] show ?thesis
      by simp
  qed
  moreover have "isqrtu64 2 = 1 \<and> isqrtu64 3 = 2 \<and> isqrtu64 4 = 2 \<and> isqrtu64 6 = 2
      \<and> isqrtu64 7 = 3 \<and> isqrtu64 8 = 3 \<and> isqrtu64 9 = 3"
    by (simp add: isqrtu64_def isqrt_start.simps isqrt_loop.simps)
  ultimately show ?thesis
    using isqrtu64_rounded_sqrt [of w] by blast
qed

text \<open>At 7, at 10000 and at 0 the nearest integers are 3, 100 and 0.\<close>

theorem isqrtu64_rounds_to_nearest_witness:
  "nat \<lfloor>sqrt (real 7) + 1 / 2\<rfloor> = 3 \<and> nat \<lfloor>sqrt (real 10000) + 1 / 2\<rfloor> = 100
   \<and> nat \<lfloor>sqrt (real 0) + 1 / 2\<rfloor> = 0"
proof -
  have e: "isqrtu64 7 = 3" "isqrtu64 10000 = 100" "isqrtu64 0 = 0"
    by (simp_all add: isqrtu64_def isqrt_start.simps isqrt_loop.simps)
  have a: "unat (isqrtu64 (word_of_nat x)) = nat \<lfloor>sqrt (real x) + 1 / 2\<rfloor>"
    if "x \<le> 10000" for x
    using isqrtu64_rounds_to_nearest [of 0] that by blast
  show ?thesis
    using a [of 7] a [of 10000] a [of 0] e by simp
qed

section \<open>Reported statistics\<close>

lemma div_ll_pos:
  assumes "0 <s d" "d <s 4294967296"
  shows "\<exists>q. div_ll n d = Inr q"
proof -
  from assms have "0 < sint d" "sint d < 2 ^ 32"
    by (simp_all add: word_sless_alt)
  then have "uint (abs_ll d) = sint d"
    by (simp add: uint_abs_ll)
  with \<open>0 < sint d\<close> \<open>sint d < 2 ^ 32\<close> have "do_div (abs_ll n) (abs_ll d) = Inr (abs_ll n div abs_ll d)"
    by (intro do_div_small) simp_all
  then show ?thesis
    by (simp add: div_ll_def)
qed

lemma isqrtu64_zero: "isqrtu64 0 = 0"
  by (simp add: isqrtu64_def isqrt_start.simps isqrt_loop.simps)

lemma isqrtu64_eq_0_iff: "isqrtu64 x = 0 \<longleftrightarrow> x = 0"
proof
  assume "isqrtu64 x = 0"
  then have "unat (isqrtu64 x) = 0"
    by simp
  with isqrtu64_bounds [of x] have "unat x = 0"
    by simp
  then show "x = 0"
    by (simp only: unat_eq_0)
qed (simp add: isqrtu64_zero)

text \<open>
  Claim C2, as amended. With no sample (\<^verbatim>\<open>stat_num\<close> not positive) the reported mean,
  variance and standard deviation are all 0. With \<open>0 < stat_num < 2^32\<close> the three
  divisions succeed and the reported standard deviation is \<^verbatim>\<open>isqrtu64\<close> of the 64 bits
  of the variance read as unsigned, the nearest integer to its square root; no clamping
  takes place, and the result agrees with \<^verbatim>\<open>isqrtu64\<close> of the variance clamped at 0
  exactly when the variance is not negative.
\<close>

theorem show_statistics_cb_stddev:
  "(\<not> 0 <s stat_num s \<longrightarrow> show_statistics_cb s = Inr (0, 0, 0))
   \<and> (0 <s stat_num s \<and> stat_num s <s 4294967296 \<longrightarrow>
        (\<exists>stat_mean q stat_var.
           div_ll (stat_sum s) (stat_num s) = Inr stat_mean
           \<and> div_ll (stat_sum s * stat_sum s) (stat_num s) = Inr q
           \<and> div_ll (stat_sumsq s - q) (stat_num s) = Inr stat_var
           \<and> show_statistics_cb s = Inr (stat_mean, stat_var, isqrtu64 stat_var)
           \<and> unat (isqrtu64 stat_var) = nat \<lfloor>sqrt (real (unat stat_var)) + 1 / 2\<rfloor>
           \<and> (isqrtu64 stat_var = isqrtu64 (if stat_var <s 0 then 0 else stat_var)
                \<longleftrightarrow> 0 \<le>s stat_var)))"
proof (intro conjI impI)
  assume "\<not> 0 <s stat_num s"
  then show "show_statistics_cb s = Inr (0, 0, 0)"
    by (simp add: show_statistics_cb_def)
next
  assume a: "0 <s stat_num s \<and> stat_num s <s 4294967296"
  then have p: "0 <s stat_num s" and b: "stat_num s <s 4294967296"
    by simp_all
  from div_ll_pos [OF p b] obtain m where m: "div_ll (stat_sum s) (stat_num s) = Inr m"
    by blast
  from div_ll_pos [OF p b] obtain q where q: "div_ll (stat_sum s * stat_sum s) (stat_num s) = Inr q"
    by blast
  from div_ll_pos [OF p b] obtain v where v: "div_ll (stat_sumsq s - q) (stat_num s) = Inr v"
    by blast
  have "show_statistics_cb s = Inr (m, v, isqrtu64 v)"
    using p by (simp add: show_statistics_cb_def m q v)
  moreover have "isqrtu64 v = isqrtu64 (if v <s 0 then 0 else v) \<longleftrightarrow> 0 \<le>s v"
  proof (cases "v <s 0")
    case True
    then have "v \<noteq> 0"
      by auto
    then have "isqrtu64 v \<noteq> isqrtu64 0"
      by (simp add: isqrtu64_zero isqrtu64_eq_0_iff)
    with True show ?thesis
      by (simp add: word_sless_alt word_sle_eq)
  next
    case False
    then show ?thesis
      by (simp add: word_sless_alt word_sle_eq)
  qed
  ultimately show "\<exists>stat_mean q stat_var.
           div_ll (stat_sum s) (stat_num s) = Inr stat_mean
           \<and> div_ll (stat_sum s * stat_sum s) (stat_num s) = Inr q
           \<and> div_ll (stat_sumsq s - q) (stat_num s) = Inr stat_var
           \<and> show_statistics_cb s = Inr (stat_mean, stat_var, isqrtu64 stat_var)
           \<and> unat (isqrtu64 stat_var) = nat \<lfloor>sqrt (real (unat stat_var)) + 1 / 2\<rfloor>
           \<and> (isqrtu64 stat_var = isqrtu64 (if stat_var <s 0 then 0 else stat_var)
                \<longleftrightarrow> 0 \<le>s stat_var)"
    using m q v isqrtu64_rounded_sqrt [of v] by blast
qed


text \<open>Two samples, 0 and 300000 ns: mean 150000, variance \<open>150000\<^sup>2\<close>, deviation 150000.\<close>

theorem show_statistics_cb_stddev_witness:
  "show_statistics_cb (lattest_init\<lparr>stat_num := 2, stat_sum := 300000, stat_sumsq := 90000000000\<rparr>)
     = Inr (150000, 22500000000, 150000)
   \<and> nat \<lfloor>sqrt (real (22500000000 :: nat)) + 1 / 2\<rfloor> = 150000
   \<and> show_statistics_cb lattest_init = Inr (0, 0, 0)"
proof -
  let ?s = "lattest_init\<lparr>stat_num := 2, stat_sum := 300000, stat_sumsq := 90000000000\<rparr>"
  have h: "0 <s stat_num ?s \<and> stat_num ?s <s 4294967296"
    by (simp add: word_sless_alt)
  have d: "div_ll (stat_sum ?s) (stat_num ?s) = Inr 150000"
    "div_ll (stat_sum ?s * stat_sum ?s) (stat_num ?s) = Inr 45000000000"
    "div_ll (stat_sumsq ?s - 45000000000) (stat_num ?s) = Inr 22500000000"
    by (simp_all add: div_ll_def do_div_def abs_ll_def word_sless_alt)
  have i: "isqrtu64 22500000000 = 150000"
    by (simp add: isqrtu64_def isqrt_start.simps isqrt_loop.simps)
  have z: "\<not> 0 <s stat_num lattest_init"
    by (simp add: lattest_init_def)
  from show_statistics_cb_stddev [of ?s] h d i
  have "show_statistics_cb ?s = Inr (150000, 22500000000, 150000)
    \<and> nat \<lfloor>sqrt (real (22500000000 :: nat)) + 1 / 2\<rfloor> = 150000"
    by auto
  moreover from show_statistics_cb_stddev [of lattest_init] z
  have "show_statistics_cb lattest_init = Inr (0, 0, 0)"
    by blast
  ultimately show ?thesis
    by simp
qed

text \<open>
  A run in which the second expiry comes 3.0370005 s late and the third on time: the
  square of the jitter wraps around, the variance is negative, and the reported
  deviation is 4017574027 where the clamped variance would give 0.
\<close>

theorem show_statistics_cb_negative_variance_counterexample:
  "run_timer (snd (store_control_cb (\<lambda>b. None) lattest_init ''infinite'' 8))
     [1000000000, 4047000500, 4057000500]
   = Inr (3, \<lparr>period_ms = 10, my_hrtimer = True, runcount = - 1,
                last_now_ns = 4057000500, hist_bin_num = 20, hist_bin_width = 1000,
                stat_min = 0, stat_max = 3037000500, stat_num = 2, stat_sum = 3037000500,
                stat_sumsq = 9223372037000250000,
                histogram = (replicate 256 0)[19 := 1, 10 := 1]\<rparr>)
   \<and> show_statistics_cb
        \<lparr>period_ms = 10, my_hrtimer = True, runcount = - 1,
         last_now_ns = 4057000500, hist_bin_num = 20, hist_bin_width = 1000,
         stat_min = 0, stat_max = 3037000500, stat_num = 2, stat_sum = 3037000500,
         stat_sumsq = 9223372037000250000,
         histogram = (replicate 256 0)[19 := 1, 10 := 1]\<rparr>
       = Inr (1518500250, - 2305843009177325404, 4017574027)
   \<and> (- 2305843009177325404 :: 64 word) <s 0
   \<and> isqrtu64 0 = 0"
  by (simp add: eval_defs show_statistics_cb_def isqrtu64_def isqrt_start.simps isqrt_loop.simps)

section \<open>Histogram counters and the sample count\<close>

lemma config_ok_init: "config_ok lattest_init"
  by (simp add: config_ok_def lattest_init_def HIST_BIN_MAX_def abs_ll_def word_sle_eq word_sless_alt)

lemma config_ok_start_timer: 
  "config_ok (start_timer s) \<longleftrightarrow> 1 \<le>s hist_bin_num s \<and> hist_bin_num s \<le>s 256
     \<and> (ucast (abs_ll (hist_bin_width s)) :: 32 word) \<noteq> 0"
  by (simp add: config_ok_def start_timer_def)

lemma statistics_ok:
  assumes "config_ok s"
  shows "\<exists>b. hist_bin s diff_ns = Inr b \<and> 0 \<le> sint b \<and> sint b < 256
           \<and> statistics s diff_ns =
               Inr (s\<lparr>stat_min := (if diff_ns <s stat_min s then diff_ns else stat_min s),
                      stat_max := (if stat_max s <s diff_ns then diff_ns else stat_max s),
                      stat_num := stat_num s + 1,
                      stat_sum := stat_sum s + diff_ns,
                      stat_sumsq := stat_sumsq s + diff_ns * diff_ns,
                      histogram := (histogram s)[nat (sint b) := histogram s ! nat (sint b) + 1]\<rparr>)"
proof -
  from assms have n: "1 \<le>s hist_bin_num s" "hist_bin_num s \<le>s 256"
    and w: "(ucast (abs_ll (hist_bin_width s)) :: 32 word) \<noteq> 0"
    and len: "length (histogram s) = 256"
    by (simp_all add: config_ok_def HIST_BIN_MAX_def)
  from w obtain b where b: "hist_bin s diff_ns = Inr b"
    using hist_bin_defined [of s diff_ns] by blast
  from n have "sint (hist_bin_num s) \<le> 256"
    by (simp add: word_sle_eq)
  with hist_bin_range [OF n b] have r: "0 \<le> sint b" "sint b < 256"
    by simp_all
  then have "histogram_incr (histogram s) b
      = Inr ((histogram s)[nat (sint b) := histogram s ! nat (sint b) + 1])"
    by (intro histogram_incr_ok) (simp_all add: len)
  with b r show ?thesis
    by (simp add: statistics_eq)
qed


lemma sum_histogram_incr:
  fixes h :: "32 word list"
  assumes i: "i < length h" and t: "sum_list (map unat h) < 2 ^ 32 - 1"
  shows "sum_list (map unat (h[i := h ! i + 1])) = sum_list (map unat h) + 1"
proof -
  have "unat (h ! i) \<in> set (map unat h)"
    using i by simp
  then have le: "unat (h ! i) \<le> sum_list (map unat h)"
    by (auto intro: member_le_sum_list)
  with t have "unat (h ! i) + unat (1 :: 32 word) < 2 ^ 32"
    by simp
  then have u: "unat (h ! i + 1) = unat (h ! i) + 1"
    using unat_add_lem [of "h ! i" 1] by simp
  have "sum_list (map unat (h[i := h ! i + 1])) = sum_list ((map unat h)[i := unat (h ! i + 1)])"
    by (simp add: map_update)
  also have "\<dots> = sum_list (map unat h) + unat (h ! i + 1) - map unat h ! i"
    using i by (intro sum_list_update) simp
  also have "\<dots> = sum_list (map unat h) + 1"
    using i le by (simp add: u)
  finally show ?thesis .
qed

lemma config_ok_statistics:
  assumes "config_ok s" and "statistics s diff_ns = Inr s'"
  shows "config_ok s'"
  using statistics_ok [OF assms(1), of diff_ns] assms
  by (auto simp add: config_ok_def abs_ll_def)

lemma statistics_ok_bin:
  assumes "config_ok s"
  shows "\<exists>b :: 64 word. 0 \<le> sint b \<and> sint b < sint (hist_bin_num s) \<and> sint (hist_bin_num s) \<le> 256
           \<and> statistics s diff_ns =
               Inr (s\<lparr>stat_min := (if diff_ns <s stat_min s then diff_ns else stat_min s),
                      stat_max := (if stat_max s <s diff_ns then diff_ns else stat_max s),
                      stat_num := stat_num s + 1,
                      stat_sum := stat_sum s + diff_ns,
                      stat_sumsq := stat_sumsq s + diff_ns * diff_ns,
                      histogram := (histogram s)[nat (sint b) := histogram s ! nat (sint b) + 1]\<rparr>)"
proof -
  from assms have n: "1 \<le>s hist_bin_num s" "hist_bin_num s \<le>s 256"
    by (simp_all add: config_ok_def)
  from statistics_ok [OF assms, of diff_ns]
  obtain b :: "64 word" where b: "hist_bin s diff_ns = Inr b"
    and st: "statistics s diff_ns =
               Inr (s\<lparr>stat_min := (if diff_ns <s stat_min s then diff_ns else stat_min s),
                      stat_max := (if stat_max s <s diff_ns then diff_ns else stat_max s),
                      stat_num := stat_num s + 1,
                      stat_sum := stat_sum s + diff_ns,
                      stat_sumsq := stat_sumsq s + diff_ns * diff_ns,
                      histogram := (histogram s)[nat (sint b) := histogram s ! nat (sint b) + 1]\<rparr>)"
    by blast
  from n have "sint (hist_bin_num s) \<le> 256"
    by (simp add: word_sle_eq)
  moreover from hist_bin_range [OF n b] have "0 \<le> sint b" "sint b < sint (hist_bin_num s)"
    by simp_all
  ultimately show ?thesis
    using st by blast
qed

lemma record_samples_counts:
  assumes "config_ok s"
    and "sum_list (map unat (take (nat (sint (hist_bin_num s))) (histogram s))) = c"
    and "sum_list (map unat (histogram s)) = c" and "unat (stat_num s) = c"
    and "c + length ds < 2 ^ 32"
  shows "\<exists>s'. record_samples s ds = Inr s' \<and> hist_bin_num s' = hist_bin_num s
           \<and> sum_list (map unat (take (nat (sint (hist_bin_num s'))) (histogram s'))) = c + length ds
           \<and> sum_list (map unat (histogram s')) = c + length ds
           \<and> unat (stat_num s') = c + length ds"
  using assms
proof (induction ds arbitrary: s c)
  case Nil
  then show ?case
    by simp
next
  case (Cons d ds)
  let ?n = "nat (sint (hist_bin_num s))"
  from statistics_ok_bin [OF Cons.prems(1), of d]
  obtain b :: "64 word" where b: "0 \<le> sint b" "sint b < sint (hist_bin_num s)"
    and n256: "sint (hist_bin_num s) \<le> 256"
    and st: "statistics s d =
               Inr (s\<lparr>stat_min := (if d <s stat_min s then d else stat_min s),
                      stat_max := (if stat_max s <s d then d else stat_max s),
                      stat_num := stat_num s + 1,
                      stat_sum := stat_sum s + d,
                      stat_sumsq := stat_sumsq s + d * d,
                      histogram := (histogram s)[nat (sint b) := histogram s ! nat (sint b) + 1]\<rparr>)"
    by blast
  then obtain s1 where s1: "statistics s d = Inr s1"
    and n1: "stat_num s1 = stat_num s + 1"
    and b1: "hist_bin_num s1 = hist_bin_num s"
    and h1: "histogram s1 = (histogram s)[nat (sint b) := histogram s ! nat (sint b) + 1]"
    by simp
  have ok1: "config_ok s1"
    using Cons.prems(1) s1 by (rule config_ok_statistics)
  have len: "length (histogram s) = 256"
    using Cons.prems(1) by (simp add: config_ok_def HIST_BIN_MAX_def)
  have i: "nat (sint b) < ?n" and n: "?n \<le> 256"
    using b n256 by simp_all
  have i256: "nat (sint b) < 256"
    using b n256 by linarith
  have c: "c < 2 ^ 32 - 1"
    using Cons.prems(5) by simp
  have t1: "sum_list (map unat (histogram s1)) = c + 1"
    unfolding h1 using i256 c Cons.prems(3) by (subst sum_histogram_incr) (simp_all add: len)
  have "take ?n (histogram s1) = (take ?n (histogram s))[nat (sint b) := take ?n (histogram s) ! nat (sint b) + 1]"
    using i by (simp add: h1 take_update_swap)
  moreover have "sum_list (map unat ((take ?n (histogram s))[nat (sint b) := take ?n (histogram s) ! nat (sint b) + 1]))
      = sum_list (map unat (take ?n (histogram s))) + 1"
    using i n c Cons.prems(2) by (intro sum_histogram_incr) (simp_all add: len)
  ultimately have p1: "sum_list (map unat (take (nat (sint (hist_bin_num s1))) (histogram s1))) = c + 1"
    using Cons.prems(2) by (simp add: b1)
  have "unat (stat_num s) + unat (1 :: 64 word) < 2 ^ 64"
    using c Cons.prems(4) by simp
  then have u1: "unat (stat_num s1) = c + 1"
    using unat_add_lem [of "stat_num s" 1] by (simp add: n1 Cons.prems(4))
  have "c + 1 + length ds < 2 ^ 32"
    using Cons.prems(5) by simp
  from Cons.IH [OF ok1 p1 t1 u1 this] s1 b1 show ?case
    by auto
qed

text \<open>
  Claim C6, as amended. After the reset made on start and any sequence of fewer than
  \<open>2^32\<close> record operations, under a configuration the timer function can work with,
  every operation succeeds and leaves the bin count as it was, and the sum of the
  counters of the bins \<open>0 .. hist_bin_num - 1\<close>, which is also the sum of all counters of
  the array, equals the number of samples recorded, which is also \<^verbatim>\<open>stat_num\<close>: no
  sample is dropped, and none is counted outside the bins in use.
\<close>

theorem record_samples_histogram_total:
  assumes "config_ok s" and "length ds < 2 ^ 32"
  shows "\<exists>s'. record_samples (start_timer s) ds = Inr s'
           \<and> hist_bin_num s' = hist_bin_num s
           \<and> sum_list (map unat (take (nat (sint (hist_bin_num s'))) (histogram s'))) = length ds
           \<and> sum_list (map unat (histogram s')) = length ds
           \<and> unat (stat_num s') = length ds"
proof -
  have "config_ok (start_timer s)"
    using assms(1) by (simp add: config_ok_start_timer) (simp add: config_ok_def)
  moreover have "sum_list (map unat (histogram (start_timer s))) = 0"
    by (simp add: start_timer_def)
  moreover have "sum_list (map unat (take (nat (sint (hist_bin_num (start_timer s))))
      (histogram (start_timer s)))) = 0"
    by (simp add: start_timer_def)
  moreover have "unat (stat_num (start_timer s)) = 0"
    by (simp add: start_timer_def)
  moreover have "0 + length ds < 2 ^ 32"
    using assms(2) by simp
  moreover have "hist_bin_num (start_timer s) = hist_bin_num s"
    by (simp add: start_timer_def)
  ultimately show ?thesis
    using record_samples_counts [of "start_timer s" 0 ds] by simp
qed

text \<open>Three samples under the default configuration: in range, above and below.\<close>

theorem record_samples_histogram_total_witness:
  "config_ok lattest_init \<and> length [0, 300000, - 300000 :: 64 word] < 2 ^ 32
   \<and> map_sum id
        (\<lambda>s'. (hist_bin_num s',
               sum_list (map unat (take (nat (sint (hist_bin_num s'))) (histogram s'))),
               sum_list (map unat (histogram s')), unat (stat_num s')))
        (record_samples (start_timer lattest_init) [0, 300000, - 300000]) = Inr (20, 3, 3, 3)"
proof -
  have l: "length [0, 300000, - 300000 :: 64 word] < 2 ^ 32"
    by simp
  have "hist_bin_num lattest_init = 20"
    by (simp add: lattest_init_def)
  with record_samples_histogram_total [OF config_ok_init l] config_ok_init show ?thesis
    by auto
qed

text \<open>
  Samples of jitter 0 under the default configuration all fall into bin 10, whose
  32-bit counter counts them modulo \<open>2^32\<close>.
\<close>

lemma record_samples_zero_jitter:
  assumes "hist_bin_num s = 20" and "hist_bin_width s = 1000" and "length (histogram s) = 256"
  shows "\<exists>s'. record_samples s (replicate m 0) = Inr s'
           \<and> hist_bin_num s' = 20
           \<and> stat_num s' = stat_num s + word_of_nat m
           \<and> histogram s' = (histogram s)[10 := histogram s ! 10 + word_of_nat m]"
  using assms
proof (induction m arbitrary: s)
  case 0
  then show ?case
    by simp
next
  case (Suc m)
  have hb: "hist_bin s 0 = Inr 10"
    by (simp add: hist_bin_def HIST_BIN_LOW_def div_ll_def do_div_def abs_ll_def Let_def
        word_sless_alt word_sle_eq Suc.prems)
  have hi: "histogram_incr (histogram s) 10 = Inr ((histogram s)[10 := histogram s ! 10 + 1])"
    by (simp add: histogram_incr_def Suc.prems)
  let ?s1 = "s\<lparr>stat_min := (if 0 <s stat_min s then 0 else stat_min s),
                 stat_max := (if stat_max s <s 0 then 0 else stat_max s),
                 stat_num := stat_num s + 1,
                 stat_sum := stat_sum s + 0,
                 stat_sumsq := stat_sumsq s + 0 * 0,
                 histogram := (histogram s)[10 := histogram s ! 10 + 1]\<rparr>"
  have s1: "statistics s 0 = Inr ?s1"
    by (simp add: statistics_eq hb hi)
  have "hist_bin_num ?s1 = 20" "hist_bin_width ?s1 = 1000" "length (histogram ?s1) = 256"
    by (simp_all add: Suc.prems)
  from Suc.IH [OF this] obtain s' where s': "record_samples ?s1 (replicate m 0) = Inr s'"
    "hist_bin_num s' = 20"
    "stat_num s' = stat_num ?s1 + word_of_nat m"
    "histogram s' = (histogram ?s1)[10 := histogram ?s1 ! 10 + word_of_nat m]"
    by blast
  have "record_samples s (replicate (Suc m) 0) = Inr s'"
    using s1 s'(1) by simp
  moreover have "stat_num s' = stat_num s + word_of_nat (Suc m)"
    using s'(3) by simp
  moreover have "histogram s' = (histogram s)[10 := histogram s ! 10 + word_of_nat (Suc m)]"
    using s'(4) by (simp add: Suc.prems add.assoc)
  ultimately show ?case
    using s'(2) by blast
qed

text \<open>
  After \<open>2^32\<close> samples of jitter 0 the counter of bin 10, an \<^verbatim>\<open>unsigned int\<close>, is 0
  again: the counters of the 20 bins, and of the whole array, sum to 0 while
  \<^verbatim>\<open>stat_num\<close> is \<open>2^32\<close>.
\<close>

theorem record_samples_counter_wraps_counterexample:
  "map_sum id
     (\<lambda>s'. (hist_bin_num s',
            sum_list (map unat (take (nat (sint (hist_bin_num s'))) (histogram s'))),
            sum_list (map unat (histogram s')), unat (stat_num s')))
     (record_samples (start_timer lattest_init) (replicate 4294967296 0))
   = Inr (20, 0, 0, 4294967296)"
proof -
  have "hist_bin_num (start_timer lattest_init) = 20"
    "hist_bin_width (start_timer lattest_init) = 1000"
    "length (histogram (start_timer lattest_init)) = 256"
    by (simp_all add: start_timer_def lattest_init_def HIST_BIN_MAX_def)
  from record_samples_zero_jitter [OF this, of 4294967296]
  obtain s' where s': "record_samples (start_timer lattest_init) (replicate 4294967296 0) = Inr s'"
    "hist_bin_num s' = 20"
    "stat_num s' = stat_num (start_timer lattest_init) + word_of_nat 4294967296"
    "histogram s' = (histogram (start_timer lattest_init))
       [10 := histogram (start_timer lattest_init) ! 10 + word_of_nat 4294967296]"
    by blast
  have "stat_num s' = 4294967296"
    using s'(3) by (simp add: start_timer_def)
  then have "unat (stat_num s') = 4294967296"
    by simp
  moreover have z: "(word_of_nat 4294967296 :: 32 word) = 0"
    by (simp add: word_of_nat_eq_0_iff)
  have "(replicate 256 (0 :: 32 word))[10 := 0] = replicate 256 0"
    using list_update_id [of "replicate 256 (0 :: 32 word)" 10] by simp
  then have h: "histogram s' = replicate 256 0"
    using s'(4) unfolding z by (simp add: start_timer_def HIST_BIN_MAX_def)
  then have "sum_list (map unat (histogram s')) = 0"
    by simp
  moreover have "sum_list (map unat (take (nat (sint (hist_bin_num s'))) (histogram s'))) = 0"
    by (simp add: h s'(2))
  ultimately show ?thesis
    using s'(1,2) by simp
qed

section \<open>The jitter sample of a firing\<close>

lemma statistics_runcount:
  assumes "statistics s diff_ns = Inr s'"
  shows "runcount s' = runcount s"
  using assms by (auto simp add: statistics_eq split: sum.splits)

text \<open>
  The later revision. On a firing that is not the first of its run (\<^verbatim>\<open>last_now_ns\<close>
  holds the previous expiry time, not the 0 that marks a first run), under a
  configuration the timer function can work with, the jitter sample is
  \<open>(now - previous) - period\<close>, and this one value updates the count, the sum, the sum of
  squares, the minimum and the maximum, and selects the histogram bin that is
  incremented. With a period of 10 ms and 20 bins of 1000 ns, expiries 10.0 ms and then
  10.3 ms apart give the samples 0 and 300000 ns, and increment bin 10 and the clamped
  top bin 19.
\<close>

lemma lattest_timer_function_jitter:
  fixes s :: lattest_state and now_ns t0 :: "64 word"
  defines "diff_ns \<equiv> now_ns - last_now_ns s - ucast (period_ms s * 1000000)"
  assumes "last_now_ns s \<noteq> 0" and "config_ok s"
  shows "(\<exists>r s' b. lattest_timer_function s now_ns = Inr (r, s')
            \<and> hist_bin s diff_ns = Inr b \<and> 0 \<le> sint b \<and> sint b < 256
            \<and> stat_num s' = stat_num s + 1
            \<and> stat_sum s' = stat_sum s + diff_ns
            \<and> stat_sumsq s' = stat_sumsq s + diff_ns * diff_ns
            \<and> stat_min s' = (if diff_ns <s stat_min s then diff_ns else stat_min s)
            \<and> stat_max s' = (if stat_max s <s diff_ns then diff_ns else stat_max s)
            \<and> histogram s' = (histogram s)[nat (sint b) := histogram s ! nat (sint b) + 1]
            \<and> last_now_ns s' = now_ns)
       \<and> (t0 \<noteq> 0 \<and> t0 + 10000000 \<noteq> 0 \<longrightarrow>
            run_timer (snd (store_control_cb kstrtoint lattest_init ''infinite'' 8))
              [t0, t0 + 10000000, t0 + 20300000]
            = Inr (3, \<lparr>period_ms = 10, my_hrtimer = True, runcount = - 1,
                        last_now_ns = t0 + 20300000, hist_bin_num = 20, hist_bin_width = 1000,
                        stat_min = 0, stat_max = 300000, stat_num = 2, stat_sum = 300000,
                        stat_sumsq = 90000000000,
                        histogram = (replicate 256 0)[10 := 1, 19 := 1]\<rparr>))"
proof
  from statistics_ok [OF assms(3), of diff_ns]
  obtain b :: "64 word" where b: "hist_bin s diff_ns = Inr b" "0 \<le> sint b" "sint b < 256"
    and st: "statistics s diff_ns =
               Inr (s\<lparr>stat_min := (if diff_ns <s stat_min s then diff_ns else stat_min s),
                      stat_max := (if stat_max s <s diff_ns then diff_ns else stat_max s),
                      stat_num := stat_num s + 1,
                      stat_sum := stat_sum s + diff_ns,
                      stat_sumsq := stat_sumsq s + diff_ns * diff_ns,
                      histogram := (histogram s)[nat (sint b) := histogram s ! nat (sint b) + 1]\<rparr>)"
    by blast
  have "statistics s (now_ns - last_now_ns s - ucast (period_ms s * 1000000)) = statistics s diff_ns"
    by (simp add: diff_ns_def)
  then show "\<exists>r s' b. lattest_timer_function s now_ns = Inr (r, s')
            \<and> hist_bin s diff_ns = Inr b \<and> 0 \<le> sint b \<and> sint b < 256
            \<and> stat_num s' = stat_num s + 1
            \<and> stat_sum s' = stat_sum s + diff_ns
            \<and> stat_sumsq s' = stat_sumsq s + diff_ns * diff_ns
            \<and> stat_min s' = (if diff_ns <s stat_min s then diff_ns else stat_min s)
            \<and> stat_max s' = (if stat_max s <s diff_ns then diff_ns else stat_max s)
            \<and> histogram s' = (histogram s)[nat (sint b) := histogram s ! nat (sint b) + 1]
            \<and> last_now_ns s' = now_ns"
    using assms(2) b by (simp add: lattest_timer_function_def st Let_def)
next
  show "t0 \<noteq> 0 \<and> t0 + 10000000 \<noteq> 0 \<longrightarrow>
            run_timer (snd (store_control_cb kstrtoint lattest_init ''infinite'' 8))
              [t0, t0 + 10000000, t0 + 20300000]
            = Inr (3, \<lparr>period_ms = 10, my_hrtimer = True, runcount = - 1,
                        last_now_ns = t0 + 20300000, hist_bin_num = 20, hist_bin_width = 1000,
                        stat_min = 0, stat_max = 300000, stat_num = 2, stat_sum = 300000,
                        stat_sumsq = 90000000000,
                        histogram = (replicate 256 0)[10 := 1, 19 := 1]\<rparr>)"
    by (simp add: eval_defs)
qed



text \<open>The third expiry of that scenario, started one second after boot.\<close>

lemma lattest_timer_function_jitter_example:
  "last_now_ns
     \<lparr>period_ms = 10, my_hrtimer = True, runcount = - 1,
      last_now_ns = 1010000000, hist_bin_num = 20, hist_bin_width = 1000,
      stat_min = 0, stat_max = 0, stat_num = 1, stat_sum = 0, stat_sumsq = 0,
      histogram = (replicate 256 0)[10 := 1]\<rparr> \<noteq> 0
   \<and> config_ok
     \<lparr>period_ms = 10, my_hrtimer = True, runcount = - 1,
      last_now_ns = 1010000000, hist_bin_num = 20, hist_bin_width = 1000,
      stat_min = 0, stat_max = 0, stat_num = 1, stat_sum = 0, stat_sumsq = 0,
      histogram = (replicate 256 0)[10 := 1]\<rparr>
   \<and> hist_bin
     \<lparr>period_ms = 10, my_hrtimer = True, runcount = - 1,
      last_now_ns = 1010000000, hist_bin_num = 20, hist_bin_width = 1000,
      stat_min = 0, stat_max = 0, stat_num = 1, stat_sum = 0, stat_sumsq = 0,
      histogram = (replicate 256 0)[10 := 1]\<rparr> (1020300000 - 1010000000 - 10000000) = Inr 19
   \<and> lattest_timer_function
     \<lparr>period_ms = 10, my_hrtimer = True, runcount = - 1,
      last_now_ns = 1010000000, hist_bin_num = 20, hist_bin_width = 1000,
      stat_min = 0, stat_max = 0, stat_num = 1, stat_sum = 0, stat_sumsq = 0,
      histogram = (replicate 256 0)[10 := 1]\<rparr> 1020300000
     = Inr (HRTIMER_RESTART,
        \<lparr>period_ms = 10, my_hrtimer = True, runcount = - 1,
         last_now_ns = 1020300000, hist_bin_num = 20, hist_bin_width = 1000,
         stat_min = 0, stat_max = 300000, stat_num = 2, stat_sum = 300000,
         stat_sumsq = 90000000000, histogram = (replicate 256 0)[10 := 1, 19 := 1]\<rparr>)
   \<and> run_timer (snd (store_control_cb (\<lambda>b. None) lattest_init ''infinite'' 8))
        [1000000000, 1000000000 + 10000000, 1000000000 + 20300000]
     = Inr (3, \<lparr>period_ms = 10, my_hrtimer = True, runcount = - 1,
                 last_now_ns = 1000000000 + 20300000, hist_bin_num = 20, hist_bin_width = 1000,
                 stat_min = 0, stat_max = 300000, stat_num = 2, stat_sum = 300000,
                 stat_sumsq = 90000000000,
                 histogram = (replicate 256 0)[10 := 1, 19 := 1]\<rparr>)"
proof -
  let ?s = "\<lparr>period_ms = 10, my_hrtimer = True, runcount = - 1,
      last_now_ns = 1010000000, hist_bin_num = 20, hist_bin_width = 1000,
      stat_min = 0, stat_max = 0, stat_num = 1, stat_sum = 0, stat_sumsq = 0,
      histogram = (replicate 256 0)[10 := 1]\<rparr>"
  have h: "last_now_ns ?s \<noteq> 0" "config_ok ?s"
    by (simp_all add: config_ok_def HIST_BIN_MAX_def abs_ll_def word_sle_eq word_sless_alt)
  have t: "(1000000000 :: 64 word) \<noteq> 0 \<and> (1000000000 :: 64 word) + 10000000 \<noteq> 0"
    by simp
  have e: "hist_bin ?s (1020300000 - 1010000000 - 10000000) = Inr 19"
    by (simp add: eval_defs)
  from lattest_timer_function_jitter [OF h, of 1020300000 1000000000 "\<lambda>b. None"] t e h
  show ?thesis
    by (auto simp add: eval_defs)
qed

lemmas eval_rev1_defs = lattest_timer_function_rev1_def store_control_cb_rev1_def
  lattest_init_rev1_def histogram_incr_def HIST_BIN_NUM_def HIST_BIN_LSBS_def
  LLONG_MAX_def LLONG_MIN_def Let_def word_sless_alt word_sle_eq strncmp_eq_infinite

text \<open>
  Claim C5. The timer function of lattest.c stores the current expiry time in
  \<^verbatim>\<open>last_now_ns\<close> before it tests and subtracts it: its result does not depend on the
  previous fire time at all, and every firing, the first of a run included, records
  \<open>0 - period\<close>. Started on the freshly initialised module (period 10 ms), with expiries
  at 1.0000 s, 1.0100 s and 1.0203 s, it records three samples of \<open>-10000000\<close> ns, all
  in bin 0, where the claim has no sample at the first firing and then the samples 0
  and 300000 ns.
\<close>

theorem lattest_timer_function_rev1_forgets_previous:
  "lattest_timer_function_rev1 (s\<lparr>last_now_ns_rev1 := previous\<rparr>) now_ns
     = lattest_timer_function_rev1 s now_ns
   \<and> run_timer_rev1 (snd (store_control_cb_rev1 (\<lambda>b. None) lattest_init_rev1 ''infinite'' 8))
         [1000000000, 1010000000, 1020300000]
       = Inr (3, \<lparr>period_ms_rev1 = 10, runcount_rev1 = - 1, last_now_ns_rev1 = 1020300000,
                   histogram_rev1 = (replicate 20 0)[0 := 3],
                   hist_min_rev1 = - 10000000, hist_max_rev1 = - 10000000\<rparr>)"
proof
  show "lattest_timer_function_rev1 (s\<lparr>last_now_ns_rev1 := previous\<rparr>) now_ns
     = lattest_timer_function_rev1 s now_ns"
    by (simp add: lattest_timer_function_rev1_def)
next
  show "run_timer_rev1 (snd (store_control_cb_rev1 (\<lambda>b. None) lattest_init_rev1 ''infinite'' 8))
         [1000000000, 1010000000, 1020300000]
       = Inr (3, \<lparr>period_ms_rev1 = 10, runcount_rev1 = - 1, last_now_ns_rev1 = 1020300000,
                   histogram_rev1 = (replicate 20 0)[0 := 3],
                   hist_min_rev1 = - 10000000, hist_max_rev1 = - 10000000\<rparr>)"
    by (simp add: eval_rev1_defs)
qed

section \<open>Runs with a finite count\<close>

lemma config_ok_update [simp]:
  "config_ok (s\<lparr>last_now_ns := a\<rparr>) = config_ok s"
  "config_ok (s\<lparr>runcount := r\<rparr>) = config_ok s"
  "config_ok (s\<lparr>my_hrtimer := m\<rparr>) = config_ok s"
  by (simp_all add: config_ok_def)

lemma lattest_timer_function_ok:
  assumes "config_ok s"
  shows "\<exists>r s'. lattest_timer_function s now_ns = Inr (r, s') \<and> config_ok s'
           \<and> last_now_ns s' = now_ns \<and> my_hrtimer s' = my_hrtimer s
           \<and> stat_num s' = (if last_now_ns s \<noteq> 0 then stat_num s + 1 else stat_num s)
           \<and> r = (if runcount s = 0 then HRTIMER_NORESTART else HRTIMER_RESTART)
           \<and> runcount s' = (if 0 <s runcount s then runcount s - 1 else runcount s)"
proof (cases "last_now_ns s = 0")
  case True
  with assms show ?thesis
    by (simp add: lattest_timer_function_def Let_def)
next
  case False
  let ?d = "now_ns - last_now_ns s - ucast (period_ms s * 1000000)"
  from statistics_ok [OF assms, of ?d] obtain s1 where s1: "statistics s ?d = Inr s1"
    and n1: "stat_num s1 = stat_num s + 1" and r1: "runcount s1 = runcount s"
    and m1: "my_hrtimer s1 = my_hrtimer s"
    by auto
  have "config_ok s1"
    using assms s1 by (rule config_ok_statistics)
  with False s1 n1 r1 m1 show ?thesis
    by (simp add: lattest_timer_function_def Let_def)
qed

lemma sint_runcount_pred:
  fixes r :: "32 word"
  assumes "sint r = int (Suc n)"
  shows "sint (r - 1) = int n"
proof -
  have "int n < 2 ^ 31"
    using sint_lt [of r] assms by simp
  moreover have "- (2 ^ 31) \<le> int n"
    by (rule order_trans [of _ 0]) simp_all
  ultimately have "signed_take_bit 31 (int n) = int n"
    by (intro signed_take_bit_int_eq_self) simp_all
  then show ?thesis
    using assms by (simp add: sint_word_diff)
qed

lemma run_timer_stopped: "\<not> my_hrtimer s \<Longrightarrow> run_timer s ts = Inr (0, s)"
  by (cases ts) simp_all

lemma run_timer_finite:
  assumes "config_ok s" and "my_hrtimer s" and "sint (runcount s) = int n"
    and "n < length ts" and "0 \<notin> set ts"
  shows "\<exists>s'. run_timer s ts = Inr (Suc n, s') \<and> runcount s' = 0 \<and> \<not> my_hrtimer s'
           \<and> stat_num s' = stat_num s + word_of_nat (if last_now_ns s = 0 then n else Suc n)"
  using assms
proof (induction n arbitrary: s ts)
  case 0
  from "0.prems"(4) obtain t ts' where ts: "ts = t # ts'"
    by (cases ts) auto
  from "0.prems"(3) have rc: "runcount s = 0"
    by (simp add: signed_eq_0_iff)
  from lattest_timer_function_ok [OF "0.prems"(1), of t]
  obtain s1 where s1: "lattest_timer_function s t = Inr (HRTIMER_NORESTART, s1)"
    "stat_num s1 = (if last_now_ns s \<noteq> 0 then stat_num s + 1 else stat_num s)"
    "runcount s1 = 0"
    using rc by auto
  have "run_timer s ts = Inr (Suc 0, s1\<lparr>my_hrtimer := False\<rparr>)"
    using "0.prems"(2) s1(1) by (simp add: ts run_timer_stopped)
  with s1(2,3) show ?case
    by auto
next
  case (Suc n)
  from Suc.prems(4) obtain t ts' where ts: "ts = t # ts'"
    by (cases ts) auto
  from Suc.prems(3) have pos: "0 <s runcount s" and nz: "runcount s \<noteq> 0"
    by (auto simp add: word_sless_alt)
  from lattest_timer_function_ok [OF Suc.prems(1), of t]
  obtain s1 where s1: "lattest_timer_function s t = Inr (HRTIMER_RESTART, s1)"
    "config_ok s1" "last_now_ns s1 = t"
    "stat_num s1 = (if last_now_ns s \<noteq> 0 then stat_num s + 1 else stat_num s)"
    "runcount s1 = runcount s - 1"
    using pos nz by auto
  let ?s1 = "s1\<lparr>my_hrtimer := True\<rparr>"
  have t0: "t \<noteq> 0" and ts0: "0 \<notin> set ts'"
    using Suc.prems(5) by (auto simp add: ts)
  have "sint (runcount ?s1) = int n"
    using Suc.prems(3) by (simp add: s1(5) sint_runcount_pred)
  moreover have "n < length ts'"
    using Suc.prems(4) by (simp add: ts)
  ultimately obtain s' where s': "run_timer ?s1 ts' = Inr (Suc n, s')" "runcount s' = 0"
    "\<not> my_hrtimer s'"
    "stat_num s' = stat_num ?s1 + word_of_nat (if last_now_ns ?s1 = 0 then n else Suc n)"
    using Suc.IH [of ?s1 ts'] s1(2) ts0 by auto
  have "run_timer s ts = Inr (Suc (Suc n), s')"
    using Suc.prems(2) s1(1) s'(1) by (simp add: ts)
  moreover have "stat_num s' = stat_num s + word_of_nat (if last_now_ns s = 0 then Suc n else Suc (Suc n))"
    using s'(4) s1(3,4) t0 by simp
  ultimately show ?case
    using s'(2,3) by blast
qed


lemma store_control_cb_finite:
  assumes "runcount s = 0" and "kstrtoint buf = Some v" and "0 <s v"
    and "\<not> strncmp_eq buf ''stop'' (min 4 count)"
    and "\<not> strncmp_eq buf ''infinite'' (min 8 count)"
  shows "store_control_cb kstrtoint s buf count = (Inr count, start_timer (s\<lparr>runcount := v\<rparr>))"
  using assms by (auto simp add: store_control_cb_def word_sle_eq word_sless_alt)

text \<open>
  Claim C1. Started with a run count of 5 and a period of 10 ms, the module has after
  five expiries \<^verbatim>\<open>runcount = 0\<close> and \<^verbatim>\<open>stat_num = 4\<close>, but the fifth callback returned
  \<^verbatim>\<open>HRTIMER_RESTART\<close>: the timer is still enqueued. The callback runs a sixth time,
  records a fifth sample, and only then returns \<^verbatim>\<open>HRTIMER_NORESTART\<close>. In general a
  run started with the count \<open>n > 0\<close> makes \<open>n + 1\<close> firings and records \<open>n\<close> samples
  (expiry times taken nonzero, as those of the monotonic clock are).
\<close>

theorem finite_run_fires_once_more:
  "run_timer (snd (store_control_cb (\<lambda>b. Some 5) lattest_init ''5'' 1))
     [10005000, 20005000, 30005000, 40005000, 50005000]
   = Inr (5, \<lparr>period_ms = 10, my_hrtimer = True, runcount = 0,
                last_now_ns = 50005000, hist_bin_num = 20, hist_bin_width = 1000,
                stat_min = 0, stat_max = 0, stat_num = 4, stat_sum = 0, stat_sumsq = 0,
                histogram = (replicate 256 0)[10 := 4]\<rparr>)
   \<and> run_timer (snd (store_control_cb (\<lambda>b. Some 5) lattest_init ''5'' 1))
     [10005000, 20005000, 30005000, 40005000, 50005000, 60005000, 70005000]
   = Inr (6, \<lparr>period_ms = 10, my_hrtimer = False, runcount = 0,
                last_now_ns = 60005000, hist_bin_num = 20, hist_bin_width = 1000,
                stat_min = 0, stat_max = 0, stat_num = 5, stat_sum = 0, stat_sumsq = 0,
                histogram = (replicate 256 0)[10 := 5]\<rparr>)
   \<and> (config_ok s \<and> runcount s = 0 \<and> kstrtoint buf = Some v \<and> 0 <s v
        \<and> \<not> strncmp_eq buf ''stop'' (min 4 count)
        \<and> \<not> strncmp_eq buf ''infinite'' (min 8 count)
        \<and> nat (sint v) < length ts \<and> 0 \<notin> set ts \<longrightarrow>
        (\<exists>s'. run_timer (snd (store_control_cb kstrtoint s buf count)) ts
                 = Inr (Suc (nat (sint v)), s')
              \<and> stat_num s' = word_of_nat (nat (sint v))
              \<and> runcount s' = 0 \<and> \<not> my_hrtimer s'))"
proof (intro conjI impI)
  assume a: "config_ok s \<and> runcount s = 0 \<and> kstrtoint buf = Some v \<and> 0 <s v
        \<and> \<not> strncmp_eq buf ''stop'' (min 4 count)
        \<and> \<not> strncmp_eq buf ''infinite'' (min 8 count)
        \<and> nat (sint v) < length ts \<and> 0 \<notin> set ts"
  let ?s1 = "start_timer (s\<lparr>runcount := v\<rparr>)"
  from a have st: "store_control_cb kstrtoint s buf count = (Inr count, ?s1)"
    by (intro store_control_cb_finite) simp_all
  from a have "0 < sint v"
    by (simp add: word_sless_alt)
  then have rc: "sint (runcount ?s1) = int (nat (sint v))"
    by (simp add: start_timer_def)
  have ok: "config_ok ?s1"
    using a by (simp add: config_ok_start_timer) (simp add: config_ok_def)
  have "my_hrtimer ?s1" "last_now_ns ?s1 = 0" "stat_num ?s1 = 0"
    by (simp_all add: start_timer_def)
  with run_timer_finite [OF ok _ rc, of ts] a st
  show "\<exists>s'. run_timer (snd (store_control_cb kstrtoint s buf count)) ts
                 = Inr (Suc (nat (sint v)), s')
              \<and> stat_num s' = word_of_nat (nat (sint v))
              \<and> runcount s' = 0 \<and> \<not> my_hrtimer s'"
    by auto
qed (simp_all add: eval_defs)

text \<open>A run count of 1: two firings, one sample.\<close>

theorem finite_run_fires_once_more_witness:
  "map_sum id (\<lambda>(k, s'). (k, stat_num s', runcount s', my_hrtimer s'))
     (run_timer (snd (store_control_cb (\<lambda>b. Some 1) lattest_init ''1'' 1))
        [10005000, 20005000, 30005000])
   = Inr (2, 1, 0, False)"
proof -
  have "config_ok lattest_init \<and> runcount lattest_init = 0 \<and> (\<lambda>b :: string. Some (1 :: 32 word)) ''1'' = Some 1
        \<and> 0 <s (1 :: 32 word)
        \<and> \<not> strncmp_eq ''1'' ''stop'' (min 4 1)
        \<and> \<not> strncmp_eq ''1'' ''infinite'' (min 8 1)
        \<and> nat (sint (1 :: 32 word)) < length [10005000, 20005000, 30005000 :: 64 word]
        \<and> 0 \<notin> set [10005000, 20005000, 30005000 :: 64 word]"
    using config_ok_init by (simp add: lattest_init_def word_sless_alt)
  with finite_run_fires_once_more [of lattest_init "\<lambda>b. Some 1" "''1''" 1 1
      "[10005000, 20005000, 30005000]", THEN conjunct2, THEN conjunct2]
  obtain s' where "run_timer (snd (store_control_cb (\<lambda>b. Some 1) lattest_init ''1'' 1))
        [10005000, 20005000, 30005000] = Inr (Suc (nat (sint (1 :: 32 word))), s')"
    "stat_num s' = word_of_nat (nat (sint (1 :: 32 word)))" "runcount s' = 0" "\<not> my_hrtimer s'"
    by blast
  then show ?thesis
    by simp
qed

end
